theory Spec2Isabelle
  imports Complex_Main "HOL-Library.Multiset"
begin

section \<open>The STV tally of Vote.py\<close>

text \<open>
  The program is Python 2. Its floats (ballot weights, vote counts, the quota) are modelled
  as exact reals; its exceptions are values of type \<open>error\<close>, returned next to the
  state as it was when the exception was raised, since a raise does not undo the
  mutations made before it.

  Ballots are mutable objects shared by reference between the context's list of votes and
  the candidates' lists of votes (\<open>add_vote\<close> "does not actually copy the vote
  object"), so they live in an explicit store \<open>heap\<close> and the lists hold addresses.
  A candidate object is in exactly one of the three lists of the context at a time, so
  those lists hold the candidates by value.
\<close>

datatype error = IndexError | AttributeError | ZeroDivisionError

subsection \<open>class Vote\<close>

record vote =
  prefs :: "string list"
  weight :: real

definition Vote :: "string list \<Rightarrow> vote" where
  "Vote ps = \<lparr>prefs = ps, weight = 1\<rparr>"

definition first_choice :: "vote \<Rightarrow> string option" where
  "first_choice v = (if length (prefs v) = 0 then None else Some (prefs v ! 0))"

definition is_white :: "vote \<Rightarrow> bool" where
  "is_white v = (if length (prefs v) = 0 then True else False)"

text \<open>
  \<open>Vote.update\<close>: the weight is multiplied first, then \<open>prefs.pop(0)\<close> raises
  IndexError on an empty list. The vote returned is the object as the call leaves it.
\<close>

definition vote_update :: "real \<Rightarrow> vote \<Rightarrow> error option \<times> vote" where
  "vote_update wcoef v =
     (let v1 = v\<lparr>weight := weight v * wcoef\<rparr>
      in case prefs v1 of
           [] \<Rightarrow> (Some IndexError, v1)
         | p # rest \<Rightarrow> (None, v1\<lparr>prefs := rest\<rparr>))"

subsection \<open>class Participant\<close>

record participant =
  name :: string
  votes :: "nat list"

definition Participant :: "string \<Rightarrow> participant" where
  "Participant n = \<lparr>name = n, votes = []\<rparr>"

text \<open>\<open>count_votes\<close> adds the weights from left to right, starting from 0.\<close>

definition count_votes :: "(nat \<Rightarrow> vote) \<Rightarrow> participant \<Rightarrow> real" where
  "count_votes h p = fold (\<lambda>i ret. ret + weight (h i)) (votes p) 0"

definition add_vote :: "nat \<Rightarrow> participant \<Rightarrow> participant" where
  "add_vote i p = p\<lparr>votes := votes p @ [i]\<rparr>"

definition participant_clear :: "participant \<Rightarrow> participant" where
  "participant_clear p = p\<lparr>votes := []\<rparr>"

subsection \<open>class Context\<close>

record Context =
  participants :: "participant list"
  seats :: int
  ballots :: "nat list"
  heap :: "nat \<Rightarrow> vote"
  winners :: "participant list"
  eliminated :: "participant list"
  phase :: nat
  quota :: real

text \<open>
  \<open>Context.__init__\<close>. The arguments are what \<open>get_participants\<close> and
  \<open>get_votes\<close> read from their files: \<open>pnames\<close> is the list made by
  \<open>list(set(pnames.split()))\<close> (its order is whatever the set iteration gives) and
  \<open>lines\<close> holds the split preference list of every line of the votes file. The
  vote of line \<open>i\<close> is stored at address \<open>i\<close>. The float division by
  \<open>seats + 1.0\<close> raises ZeroDivisionError when that is zero.
\<close>

definition destroy_white_votes :: "Context \<Rightarrow> Context" where
  "destroy_white_votes c = c\<lparr>ballots := filter (\<lambda>i. \<not> is_white (heap c i)) (ballots c)\<rparr>"

definition Context_init :: "string list \<Rightarrow> int \<Rightarrow> string list list \<Rightarrow> error + Context" where
  "Context_init pnames s lines =
     (let c0 = \<lparr>participants = map Participant pnames,
                seats = s,
                ballots = [0 ..< length lines],
                heap = (\<lambda>i. if i < length lines then Vote (lines ! i) else Vote []),
                winners = [],
                eliminated = [],
                phase = 0,
                quota = 0\<rparr>;
          c1 = destroy_white_votes c0
      in if real_of_int s + 1 = 0 then Inl ZeroDivisionError
         else Inr (c1\<lparr>quota := of_int \<lceil>1 + real (length (ballots c1)) / (real_of_int s + 1)\<rceil>\<rparr>))"

text \<open>\<open>complete\<close>; HOL has a constant of that name, hence the suffix.\<close>

definition complete_election :: "Context \<Rightarrow> bool" where
  "complete_election c = (if int (length (winners c)) = seats c then True else False)"

text \<open>
  \<open>find_participant\<close> returns the first candidate of \<open>self.participants\<close> with
  the given name, or None. The candidate is returned by reference, here as its position
  in the list. The argument is what \<open>first_choice\<close> returned, which may be None.
\<close>

fun find_pos :: "participant list \<Rightarrow> string option \<Rightarrow> nat option" where
  "find_pos [] n = None"
| "find_pos (p # ps) n = (if Some (name p) = n then Some 0 else map_option Suc (find_pos ps n))"

definition find_participant :: "Context \<Rightarrow> string option \<Rightarrow> nat option" where
  "find_participant c n = find_pos (participants c) n"

definition give_vote :: "nat \<Rightarrow> nat \<Rightarrow> Context \<Rightarrow> Context" where
  "give_vote j i c = c\<lparr>participants := (participants c)[j := add_vote i (participants c ! j)]\<rparr>"

definition update_at :: "real \<Rightarrow> nat \<Rightarrow> Context \<Rightarrow> error option \<times> Context" where
  "update_at wcoef i c =
     (case vote_update wcoef (heap c i) of (r, v) \<Rightarrow> (r, c\<lparr>heap := (heap c)(i := v)\<rparr>))"

text \<open>The inner \<open>while not vote.is_white()\<close> loop of \<open>migrate\<close>, for the vote at \<open>i\<close>.\<close>

function migrate_while :: "nat \<Rightarrow> Context \<Rightarrow> error option \<times> Context" where
  "migrate_while i c =
     (if is_white (heap c i) then (None, c)
      else case find_participant c (first_choice (heap c i)) of
             Some j \<Rightarrow> (None, give_vote j i c)
           | None \<Rightarrow> (case update_at 1 i c of
                        (Some e, c1) \<Rightarrow> (Some e, c1)
                      | (None, c1) \<Rightarrow> migrate_while i c1))"
  by pat_completeness auto
termination
  by (relation "measure (\<lambda>(i, c). length (prefs (heap c i)))")
     (auto simp: update_at_def vote_update_def is_white_def Let_def split: list.splits)

text \<open>The \<open>for vote in source.votes\<close> loop of \<open>migrate\<close>.\<close>

fun migrate_for :: "real \<Rightarrow> nat list \<Rightarrow> Context \<Rightarrow> error option \<times> Context" where
  "migrate_for wcoef [] c = (None, c)"
| "migrate_for wcoef (i # is) c =
     (case update_at wcoef i c of
        (Some e, c1) \<Rightarrow> (Some e, c1)
      | (None, c1) \<Rightarrow> (case migrate_while i c1 of
                         (Some e, c2) \<Rightarrow> (Some e, c2)
                       | (None, c2) \<Rightarrow> migrate_for wcoef is c2))"

text \<open>
  \<open>migrate\<close>. Its source has just been appended to \<open>winners\<close> or to
  \<open>eliminated\<close>: the model names that list, of which the source is the last element,
  and \<open>source.clear()\<close> empties the votes of that element.
\<close>

datatype place = In_winners | In_eliminated

definition source_of :: "place \<Rightarrow> Context \<Rightarrow> participant" where
  "source_of pl c = (case pl of In_winners \<Rightarrow> last (winners c) | In_eliminated \<Rightarrow> last (eliminated c))"

definition clear_source :: "place \<Rightarrow> Context \<Rightarrow> Context" where
  "clear_source pl c =
     (case pl of
        In_winners \<Rightarrow> c\<lparr>winners := butlast (winners c) @ [participant_clear (last (winners c))]\<rparr>
      | In_eliminated \<Rightarrow> c\<lparr>eliminated := butlast (eliminated c) @ [participant_clear (last (eliminated c))]\<rparr>)"

definition migrate :: "place \<Rightarrow> real \<Rightarrow> Context \<Rightarrow> error option \<times> Context" where
  "migrate pl wcoef c =
     (case migrate_for wcoef (votes (source_of pl c)) c of
        (Some e, c1) \<Rightarrow> (Some e, c1)
      | (None, c1) \<Rightarrow> (None, clear_source pl c1))"

text \<open>
  \<open>election_phase\<close>. Python's \<open>sort(key, reverse=True)\<close> is stable: candidates with
  equal counts keep their order, as \<open>sort_key\<close> on the negated count does.
\<close>

definition ranking :: "Context \<Rightarrow> participant list" where
  "ranking c = sort_key (\<lambda>p. - count_votes (heap c) p) (participants c)"

definition election_phase :: "Context \<Rightarrow> error option \<times> Context" where
  "election_phase c =
     (let c1 = c\<lparr>phase := phase c + 1\<rparr>;
          c2 = c1\<lparr>participants := ranking c1\<rparr>
      in case participants c2 of
           [] \<Rightarrow> (Some IndexError, c2)
         | first # rest \<Rightarrow>
             if count_votes (heap c2) first \<ge> quota c2 then
               (let c3 = c2\<lparr>winners := winners c2 @ [first], participants := rest\<rparr>;
                    no_of_votes = count_votes (heap c3) first
                in if no_of_votes = 0 then (Some ZeroDivisionError, c3)
                   else migrate In_winners ((no_of_votes - quota c3) / no_of_votes) c3)
             else
               (let lst = last (participants c2);
                    c3 = c2\<lparr>participants := butlast (participants c2),
                            eliminated := eliminated c2 @ [lst]\<rparr>;
                    c4 = (if int (length (winners c3)) + int (length (participants c3)) = seats c3
                          then c3\<lparr>winners := winners c3 @ participants c3, participants := []\<rparr>
                          else c3)
                in migrate In_eliminated 1 c4))"

subsection \<open>What a migration leaves alone\<close>

text \<open>
  The rounds loop runs until \<open>complete\<close>; that it always stops rests on the fact that
  a migration never changes which candidates are in \<open>self.participants\<close>, proved
  first.
\<close>

definition frame :: "Context \<Rightarrow> Context \<Rightarrow> bool" where
  "frame c c' =
     (map name (participants c') = map name (participants c) \<and> seats c' = seats c \<and>
      quota c' = quota c \<and> winners c' = winners c \<and> eliminated c' = eliminated c \<and>
      phase c' = phase c \<and> ballots c' = ballots c)"

lemma frame_refl: "frame c c"
  by (simp add: frame_def)

lemma frame_trans: "frame a b \<Longrightarrow> frame b c \<Longrightarrow> frame a c"
  by (simp add: frame_def)

lemma map_name_add_vote: "map name (ps[j := add_vote i (ps ! j)]) = map name ps"
proof (cases "j < length ps")
  case True
  then show ?thesis by (simp add: map_update add_vote_def list_update_same_conv)
next
  case False
  then show ?thesis by (simp add: list_update_beyond)
qed

lemma give_vote_frame: "frame c (give_vote j i c)"
  by (simp add: frame_def give_vote_def map_name_add_vote)

lemma update_at_frame: "update_at k i c = (r, c') \<Longrightarrow> frame c c'"
  by (auto simp: frame_def update_at_def split: prod.splits)

lemma migrate_while_frame: "migrate_while i c = (r, c') \<Longrightarrow> frame c c'"
proof (induction i c arbitrary: r c' rule: migrate_while.induct)
  case (1 i c)
  show ?case
  proof (cases "is_white (heap c i)")
    case True
    with "1.prems" show ?thesis by (simp add: frame_refl)
  next
    case False
    show ?thesis
    proof (cases "find_participant c (first_choice (heap c i))")
      case (Some j)
      with False "1.prems" show ?thesis by (auto simp: give_vote_frame)
    next
      case None
      obtain r1 c1 where u: "update_at 1 i c = (r1, c1)" by (cases "update_at 1 i c")
      show ?thesis
      proof (cases r1)
        case (Some e)
        with False None u "1.prems" show ?thesis by (auto simp: update_at_frame)
      next
        case rn: None
        from False None u rn "1.prems" have "migrate_while i c1 = (r, c')" by simp
        from "1.IH"[OF False None u[unfolded rn, symmetric] refl this] update_at_frame[OF u]
        show ?thesis by (rule frame_trans[rotated])
      qed
    qed
  qed
qed

lemma migrate_for_frame: "migrate_for k is c = (r, c') \<Longrightarrow> frame c c'"
proof (induction "is" arbitrary: c)
  case Nil
  then show ?case by (simp add: frame_refl)
next
  case (Cons i "is")
  obtain r1 c1 where u: "update_at k i c = (r1, c1)" by (cases "update_at k i c")
  obtain r2 c2 where w: "migrate_while i c1 = (r2, c2)" by (cases "migrate_while i c1")
  note f1 = update_at_frame[OF u] and f2 = migrate_while_frame[OF w]
  show ?case
  proof (cases r1)
    case (Some e)
    with Cons.prems u f1 show ?thesis by auto
  next
    case n1: None
    show ?thesis
    proof (cases r2)
      case (Some e)
      with Cons.prems u w n1 have "c' = c2" by simp
      with f1 f2 show ?thesis by (auto intro: frame_trans)
    next
      case None
      with Cons.prems u w n1 have "migrate_for k is c2 = (r, c')" by simp
      from Cons.IH[OF this] f1 f2 show ?thesis by (blast intro: frame_trans)
    qed
  qed
qed

lemma migrate_participants_length:
  "migrate pl k c = (r, c') \<Longrightarrow> length (participants c') = length (participants c)"
proof -
  assume m: "migrate pl k c = (r, c')"
  obtain r1 c1 where f: "migrate_for k (votes (source_of pl c)) c = (r1, c1)"
    by (cases "migrate_for k (votes (source_of pl c)) c")
  from migrate_for_frame[OF f] have "length (participants c1) = length (participants c)"
    unfolding frame_def by (metis length_map)
  moreover from m f have "participants c' = participants c1"
    by (cases r1; cases pl) (auto simp: migrate_def clear_source_def)
  ultimately show ?thesis by simp
qed

lemma election_phase_shrinks:
  "election_phase c = (None, c') \<Longrightarrow> length (participants c') < length (participants c)"
proof -
  assume e: "election_phase c = (None, c')"
  let ?ps = "ranking c"
  have len: "length ?ps = length (participants c)" by (simp add: ranking_def)
  show ?thesis
  proof (cases ?ps)
    case Nil
    with e show ?thesis by (simp add: election_phase_def Let_def ranking_def)
  next
    case (Cons first rest)
    with len have l: "length (participants c) = Suc (length rest)" by simp
    from e Cons l show ?thesis
      by (auto simp: election_phase_def Let_def ranking_def split: if_splits
               dest!: migrate_participants_length)
  qed
qed

text \<open>
  \<open>election_loop\<close>: the initial assignment, where \<open>p.add_vote\<close> on the None that
  \<open>find_participant\<close> returned raises AttributeError, then the rounds. The debugger
  breakpoint at the head of each round changes no state and is left out.
\<close>

fun assign_for :: "nat list \<Rightarrow> Context \<Rightarrow> error option \<times> Context" where
  "assign_for [] c = (None, c)"
| "assign_for (i # is) c =
     (case find_participant c (first_choice (heap c i)) of
        None \<Rightarrow> (Some AttributeError, c)
      | Some j \<Rightarrow> assign_for is (give_vote j i c))"

text \<open>The \<open>while not self.complete()\<close> loop of \<open>election_loop\<close>.\<close>

function election_while :: "Context \<Rightarrow> error option \<times> Context" where
  "election_while c =
     (if complete_election c then (None, c)
      else case election_phase c of
             (Some e, c1) \<Rightarrow> (Some e, c1)
           | (None, c1) \<Rightarrow> election_while c1)"
  by pat_completeness auto
termination
  by (relation "measure (\<lambda>c. length (participants c))") (auto simp: election_phase_shrinks)

definition election_loop :: "Context \<Rightarrow> error option \<times> Context" where
  "election_loop c =
     (case assign_for (ballots c) c of
        (Some e, c1) \<Rightarrow> (Some e, c1)
      | (None, c1) \<Rightarrow> election_while c1)"

text \<open>
  The script at the end of the file builds the context and runs the loop; its three
  arguments are parameters here. An exception of the constructor leaves no context.
\<close>

definition main :: "string list \<Rightarrow> int \<Rightarrow> string list list \<Rightarrow> error + error option \<times> Context" where
  "main pnames s lines =
     (case Context_init pnames s lines of
        Inl e \<Rightarrow> Inl e
      | Inr c \<Rightarrow> Inr (election_loop c))"

text \<open>
  The quota in the words of the specification:
  \<open>floor(validBallotCount / (seats + 1)) + 1\<close>.
\<close>

definition droop_quota :: "nat \<Rightarrow> int \<Rightarrow> real" where
  "droop_quota v s = of_int (\<lfloor>real v / (real_of_int s + 1)\<rfloor> + 1)"

subsection \<open>Example elections\<close>

text \<open>
  One candidate \<open>A\<close>, one seat, one ballot naming the unknown \<open>B\<close>, as
  the constructor leaves them.
\<close>

definition unknown_example :: Context where
  "unknown_example =
     \<lparr>participants = [\<lparr>name = ''A'', votes = []\<rparr>], seats = 1, ballots = [0],
      heap = (\<lambda>i. Vote [''B'']), winners = [], eliminated = [], phase = 0, quota = 2\<rparr>"

text \<open>
  Candidates \<open>A\<close> and \<open>B\<close>, one seat, the single ballot \<open>[A]\<close> assigned
  to \<open>A\<close>: the state at the head of the first round.
\<close>

definition fill_example :: Context where
  "fill_example =
     \<lparr>participants = [\<lparr>name = ''A'', votes = [0]\<rparr>, \<lparr>name = ''B'', votes = []\<rparr>],
      seats = 1, ballots = [0], heap = (\<lambda>i. Vote [''A'']), winners = [], eliminated = [],
      phase = 0, quota = 2\<rparr>"

text \<open>
  Four candidates, three seats and the ballots \<open>[A]\<close>, \<open>[A]\<close>, \<open>[B]\<close>,
  \<open>[B]\<close>, after the initial assignment.
\<close>

definition four_example :: Context where
  "four_example =
     \<lparr>participants = [\<lparr>name = ''A'', votes = [0, 1]\<rparr>, \<lparr>name = ''B'', votes = [2, 3]\<rparr>,
                      \<lparr>name = ''C'', votes = []\<rparr>, \<lparr>name = ''D'', votes = []\<rparr>],
      seats = 3, ballots = [0, 1, 2, 3],
      heap = (\<lambda>i. if i < 2 then Vote [''A''] else Vote [''B'']),
      winners = [], eliminated = [], phase = 0, quota = 2\<rparr>"

text \<open>
  Candidates \<open>A\<close>, \<open>B\<close>, \<open>C\<close>, two seats and five ballots that all name
  \<open>A\<close> first, after the initial assignment: the quota is \<open>ceil(1 + 5/3) = 3\<close> and
  \<open>A\<close> holds 5 votes.
\<close>

definition surplus_example :: Context where
  "surplus_example =
     \<lparr>participants = [\<lparr>name = ''A'', votes = [0, 1, 2, 3, 4]\<rparr>, \<lparr>name = ''B'', votes = []\<rparr>,
                      \<lparr>name = ''C'', votes = []\<rparr>],
      seats = 2, ballots = [0, 1, 2, 3, 4],
      heap = (\<lambda>i. if i < 5 then Vote ([[''A'', ''B''], [''A'', ''A'', ''C''], [''A''],
                                          [''A'', ''B''], [''A'', ''C'']] ! i)
                  else Vote []),
      winners = [], eliminated = [], phase = 0, quota = 3\<rparr>"

text \<open>
  The same election inside the first round, when \<open>migrate\<close> is called: \<open>A\<close> has
  been moved to the winners and still holds its five ballots.
\<close>

definition migrate_example :: Context where
  "migrate_example =
     \<lparr>participants = [\<lparr>name = ''B'', votes = []\<rparr>, \<lparr>name = ''C'', votes = []\<rparr>],
      seats = 2, ballots = [0, 1, 2, 3, 4],
      heap = (\<lambda>i. if i < 5 then Vote ([[''A'', ''B''], [''A'', ''A'', ''C''], [''A''],
                                          [''A'', ''B''], [''A'', ''C'']] ! i)
                  else Vote []),
      winners = [\<lparr>name = ''A'', votes = [0, 1, 2, 3, 4]\<rparr>], eliminated = [], phase = 1,
      quota = 3\<rparr>"

subsection \<open>What a migration does to one ballot\<close>

text \<open>
  \<open>settled c ps\<close> is what is left of the preferences \<open>ps\<close> once the names that
  \<open>find_participant\<close> does not find among the active candidates are consumed from the
  front. \<open>holders c x\<close> lists the positions of the active candidates whose list of
  votes contains the ballot \<open>x\<close>, and \<open>holds c j x\<close> says that the candidate at
  position \<open>j\<close> is one of them. \<open>placed i c\<close> is the state in which the inner loop
  of \<open>migrate\<close> leaves the context, \<open>moved k c i\<close> the ballot \<open>i\<close> after the body
  of the outer loop, and \<open>target k c x j\<close> says that this body hands ballot \<open>x\<close> to
  the candidate at position \<open>j\<close>.
\<close>

definition settled :: "Context \<Rightarrow> string list \<Rightarrow> string list" where
  "settled c ps = dropWhile (\<lambda>n. find_participant c (Some n) = None) ps"

definition holders :: "Context \<Rightarrow> nat \<Rightarrow> nat list" where
  "holders c x = filter (\<lambda>j. x \<in> set (votes (participants c ! j))) [0 ..< length (participants c)]"

definition placed :: "nat \<Rightarrow> Context \<Rightarrow> Context" where
  "placed i c =
     (let rest = settled c (prefs (heap c i));
          c1 = c\<lparr>heap := (heap c)(i := (heap c i)\<lparr>prefs := rest\<rparr>)\<rparr>
      in case rest of
           [] \<Rightarrow> c1
         | n # ns \<Rightarrow> (case find_participant c (Some n) of
                        None \<Rightarrow> c1
                      | Some j \<Rightarrow> give_vote j i c1))"

definition moved :: "real \<Rightarrow> Context \<Rightarrow> nat \<Rightarrow> vote" where
  "moved k c i = \<lparr>prefs = settled c (tl (prefs (heap c i))), weight = weight (heap c i) * k\<rparr>"

definition holds :: "Context \<Rightarrow> nat \<Rightarrow> nat \<Rightarrow> bool" where
  "holds c j x = (j < length (participants c) \<and> x \<in> set (votes (participants c ! j)))"

definition target :: "real \<Rightarrow> Context \<Rightarrow> nat \<Rightarrow> nat \<Rightarrow> bool" where
  "target k c x j =
     (case prefs (moved k c x) of [] \<Rightarrow> False | m # ms \<Rightarrow> find_participant c (Some m) = Some j)"

subsection \<open>Ownership of the ballots\<close>

text \<open>
  \<open>held c\<close> collects the ballots in the lists of the active candidates, and
  \<open>owned c\<close> says that no ballot occurs twice there and that none of them is white.
\<close>

definition held :: "Context \<Rightarrow> nat multiset" where
  "held c = mset (concat (map votes (participants c)))"

definition owned :: "Context \<Rightarrow> bool" where
  "owned c = (distinct (concat (map votes (participants c))) \<and>
              list_all (\<lambda>x. prefs (heap c x) \<noteq> []) (concat (map votes (participants c))))"

subsection \<open>Counting the weight that moves\<close>




subsection \<open>Comparing the ballot weights of two states\<close>

definition lighter :: "Context \<Rightarrow> Context \<Rightarrow> bool" where
  "lighter c c' = (\<forall>i. 0 \<le> weight (heap c' i) \<and> weight (heap c' i) \<le> weight (heap c i))"

definition same_weights :: "Context \<Rightarrow> Context \<Rightarrow> bool" where
  "same_weights c c' = (\<forall>i. weight (heap c' i) = weight (heap c i))"

subsection \<open>Round boundaries\<close>

text \<open>
  The states between two rounds of the loop of \<open>election_loop\<close>, from the state
  \<open>c0\<close> at its head: a round is run only while the election is not complete, and
  the next boundary is reached when the round returns.
\<close>

inductive round_boundary :: "Context \<Rightarrow> Context \<Rightarrow> bool" for c0 where
  start: "round_boundary c0 c0"
| round: "round_boundary c0 c \<Longrightarrow> \<not> complete_election c \<Longrightarrow> election_phase c = (None, c') \<Longrightarrow>
          round_boundary c0 c'"

definition all_names :: "Context \<Rightarrow> string list" where
  "all_names c = map name (participants c @ winners c @ eliminated c)"

section \<open>Lemmas on the operations\<close>

lemma find_pos_names: "map name ps = map name ps' \<Longrightarrow> find_pos ps n = find_pos ps' n"
proof (induction ps arbitrary: ps')
  case Nil
  then show ?case by simp
next
  case (Cons p ps)
  then obtain q qs where "ps' = q # qs" by (cases ps') auto
  with Cons show ?case by auto
qed

lemma frame_find: "frame c c' \<Longrightarrow> find_participant c' n = find_participant c n"
  unfolding frame_def find_participant_def by (metis find_pos_names)

lemma give_vote_heap: "heap (give_vote j i c) = heap c"
  by (simp add: give_vote_def)

lemma assign_for_frame: "assign_for is c = (r, c') \<Longrightarrow> frame c c' \<and> heap c' = heap c"
proof (induction "is" arbitrary: c)
  case Nil
  then show ?case by (simp add: frame_refl)
next
  case (Cons i "is")
  show ?case
  proof (cases "find_participant c (first_choice (heap c i))")
    case None
    with Cons.prems show ?thesis by (simp add: frame_refl)
  next
    case (Some j)
    with Cons.prems have "assign_for is (give_vote j i c) = (r, c')" by simp
    from Cons.IH[OF this] give_vote_frame[of c j i] show ?thesis
      by (auto simp: give_vote_heap intro: frame_trans)
  qed
qed

lemma assign_for_unknown:
  "i \<in> set is \<Longrightarrow> find_participant c (first_choice (heap c i)) = None \<Longrightarrow>
   fst (assign_for is c) = Some AttributeError"
proof (induction "is" arbitrary: c)
  case Nil
  then show ?case by simp
next
  case (Cons k "is")
  show ?case
  proof (cases "find_participant c (first_choice (heap c k))")
    case None
    then show ?thesis by simp
  next
    case (Some j)
    have neq: "k \<noteq> i" using Some Cons.prems(2) by auto
    with Cons.prems(1) have mem: "i \<in> set is" by simp
    have "find_participant (give_vote j k c) (first_choice (heap (give_vote j k c) i)) = None"
      using Cons.prems(2) frame_find[OF give_vote_frame[of c j k]] by (simp add: give_vote_heap)
    from Cons.IH[OF mem this] Some show ?thesis by simp
  qed
qed

lemma ranking_phase [simp]: "ranking (c\<lparr>phase := n\<rparr>) = ranking c"
  by (simp add: ranking_def)

lemma election_phase_cases [consumes 1, case_names empty zero win elim fill]:
  assumes "election_phase c = (r, c')"
  obtains
    "participants c = []" "r = Some IndexError" "c' = c\<lparr>phase := Suc (phase c), participants := []\<rparr>"
  | first rest where "ranking c = first # rest" "quota c \<le> count_votes (heap c) first"
      "count_votes (heap c) first = 0" "r = Some ZeroDivisionError"
      "c' = c\<lparr>phase := Suc (phase c), winners := winners c @ [first], participants := rest\<rparr>"
  | first rest where "ranking c = first # rest" "quota c \<le> count_votes (heap c) first"
      "count_votes (heap c) first \<noteq> 0"
      "migrate In_winners ((count_votes (heap c) first - quota c) / count_votes (heap c) first)
         (c\<lparr>phase := Suc (phase c), winners := winners c @ [first], participants := rest\<rparr>) = (r, c')"
  | "ranking c \<noteq> []" "count_votes (heap c) (hd (ranking c)) < quota c"
      "int (length (winners c)) + int (length (butlast (ranking c))) \<noteq> seats c"
      "migrate In_eliminated 1
         (c\<lparr>phase := Suc (phase c), participants := butlast (ranking c),
             eliminated := eliminated c @ [last (ranking c)]\<rparr>) = (r, c')"
  | "ranking c \<noteq> []" "count_votes (heap c) (hd (ranking c)) < quota c"
      "int (length (winners c)) + int (length (butlast (ranking c))) = seats c"
      "migrate In_eliminated 1
         (c\<lparr>phase := Suc (phase c), eliminated := eliminated c @ [last (ranking c)],
             winners := winners c @ butlast (ranking c), participants := []\<rparr>) = (r, c')"
proof (cases "ranking c")
  case Nil
  then have "length (participants c) = length ([] :: participant list)"
    unfolding ranking_def by (metis length_sort)
  then have "participants c = []" by simp
  with assms Nil that(1) show ?thesis
    by (auto simp: election_phase_def Let_def)
next
  case (Cons first rest)
  show ?thesis
  proof (cases "quota c \<le> count_votes (heap c) first")
    case True
    show ?thesis
    proof (cases "count_votes (heap c) first = 0")
      case z: True
      from assms Cons True z show ?thesis
        by (intro that(2)[of first rest]) (auto simp: election_phase_def Let_def ranking_def)
    next
      case nz: False
      from assms Cons True nz show ?thesis
        by (intro that(3)[of first rest]) (auto simp: election_phase_def Let_def ranking_def)
    qed
  next
    case False
    show ?thesis
    proof (cases "int (length (winners c)) + int (length (butlast (ranking c))) = seats c")
      case f: True
      from assms Cons False f show ?thesis
        by (intro that(5)) (auto simp: election_phase_def Let_def ranking_def)
    next
      case nf: False
      from assms Cons False nf show ?thesis
        by (intro that(4)) (auto simp: election_phase_def Let_def ranking_def)
    qed
  qed
qed

lemma map_name_clear_last: "ws \<noteq> [] \<Longrightarrow> map name (butlast ws @ [participant_clear (last ws)]) = map name ws"
  by (induction ws) (auto simp: participant_clear_def)

lemma migrate_keeps:
  assumes "migrate pl k c = (r, c')"
  shows "map name (participants c') = map name (participants c)"
    and "seats c' = seats c" and "quota c' = quota c" and "phase c' = phase c"
    and "ballots c' = ballots c"
    and "pl = In_eliminated \<Longrightarrow> winners c' = winners c"
    and "pl = In_winners \<Longrightarrow> eliminated c' = eliminated c"
    and "winners c \<noteq> [] \<Longrightarrow> map name (winners c') = map name (winners c)"
    and "eliminated c \<noteq> [] \<Longrightarrow> map name (eliminated c') = map name (eliminated c)"
proof -
  obtain r1 c1 where f: "migrate_for k (votes (source_of pl c)) c = (r1, c1)"
    by (cases "migrate_for k (votes (source_of pl c)) c")
  note fr = migrate_for_frame[OF f, unfolded frame_def]
  have c': "c' = c1 \<or> c' = clear_source pl c1"
    using assms f by (cases r1) (auto simp: migrate_def)
  from c' fr show "map name (participants c') = map name (participants c)"
    by (cases pl) (auto simp: clear_source_def)
  from c' fr show "seats c' = seats c" by (cases pl) (auto simp: clear_source_def)
  from c' fr show "quota c' = quota c" by (cases pl) (auto simp: clear_source_def)
  from c' fr show "phase c' = phase c" by (cases pl) (auto simp: clear_source_def)
  from c' fr show "ballots c' = ballots c" by (cases pl) (auto simp: clear_source_def)
  from c' fr show "pl = In_eliminated \<Longrightarrow> winners c' = winners c"
    by (auto simp: clear_source_def)
  from c' fr show "pl = In_winners \<Longrightarrow> eliminated c' = eliminated c"
    by (auto simp: clear_source_def)
  from c' fr show "winners c \<noteq> [] \<Longrightarrow> map name (winners c') = map name (winners c)"
    by (cases pl) (auto simp: clear_source_def map_name_clear_last simp del: map_append)
  from c' fr show "eliminated c \<noteq> [] \<Longrightarrow> map name (eliminated c') = map name (eliminated c)"
    by (cases pl) (auto simp: clear_source_def map_name_clear_last simp del: map_append)
qed

lemma ranking_length: "length (ranking c) = length (participants c)"
  by (simp add: ranking_def)

lemma ranking_Nil: "ranking c = [] \<longleftrightarrow> participants c = []"
  using ranking_length[of c] by (metis length_0_conv)

lemma election_phase_keeps:
  assumes "election_phase c = (r, c')"
  shows "phase c' = Suc (phase c) \<and> seats c' = seats c \<and> quota c' = quota c \<and>
         ballots c' = ballots c"
  using assms
proof (cases rule: election_phase_cases)
  case (win first rest)
  from migrate_keeps(2,3,4,5)[OF win(4)] show ?thesis by simp
next
  case elim
  from migrate_keeps(2,3,4,5)[OF elim(4)] show ?thesis by simp
next
  case fill
  from migrate_keeps(2,3,4,5)[OF fill(4)] show ?thesis by simp
qed simp_all

lemma election_phase_lengths:
  assumes "election_phase c = (None, c')"
  shows "(length (winners c') = Suc (length (winners c)) \<and>
          Suc (length (participants c')) = length (participants c)) \<or>
         (length (winners c') = length (winners c) \<and>
          Suc (length (participants c')) = length (participants c) \<and>
          int (length (winners c')) + int (length (participants c')) \<noteq> seats c) \<or>
         (int (length (winners c')) = seats c \<and> participants c' = [] \<and>
          int (length (winners c)) + int (length (participants c)) = seats c + 1)"
  using assms
proof (cases rule: election_phase_cases)
  case empty
  then show ?thesis by simp
next
  case (zero first rest)
  then show ?thesis by simp
next
  case (win first rest)
  have l: "length (participants c) = Suc (length rest)"
    using ranking_length[of c] win(1) by simp
  have "length (participants c') = length rest"
    using migrate_participants_length[OF win(4)] by simp
  moreover have "length (winners c') = Suc (length (winners c))"
    using map_eq_imp_length_eq[OF migrate_keeps(8)[OF win(4)]] by simp
  ultimately show ?thesis using l by simp
next
  case elim
  have l: "length (participants c) = Suc (length (butlast (ranking c)))"
    using elim(1) by (cases "participants c") (simp_all add: ranking_length ranking_Nil)
  have "length (participants c') = length (butlast (ranking c))"
    using migrate_participants_length[OF elim(4)] by simp
  moreover have "winners c' = winners c"
    using migrate_keeps(6)[OF elim(4)] by simp
  ultimately show ?thesis using l elim(3) by simp
next
  case fill
  have l: "length (participants c) = Suc (length (butlast (ranking c)))"
    using fill(1) by (cases "participants c") (simp_all add: ranking_length ranking_Nil)
  have "length (participants c') = 0"
    using migrate_participants_length[OF fill(4)] by simp
  moreover have "winners c' = winners c @ butlast (ranking c)"
    using migrate_keeps(6)[OF fill(4)] by simp
  ultimately show ?thesis using l fill(3) by simp
qed

lemma election_while_keeps:
  "election_while c = (r, c') \<Longrightarrow>
     phase c \<le> phase c' \<and> seats c' = seats c \<and> quota c' = quota c \<and> ballots c' = ballots c"
proof (induction c rule: election_while.induct)
  case (1 c)
  show ?case
  proof (cases "complete_election c")
    case True
    with "1.prems" show ?thesis by simp
  next
    case False
    obtain r1 c1 where e: "election_phase c = (r1, c1)" by (cases "election_phase c")
    note k = election_phase_keeps[OF e]
    show ?thesis
    proof (cases r1)
      case (Some x)
      with False e "1.prems" k show ?thesis by simp
    next
      case None
      with False e "1.prems" have "election_while c1 = (r, c')" by simp
      from "1.IH"[OF False e[unfolded None, symmetric] refl this] k show ?thesis by simp
    qed
  qed
qed

lemma election_while_started:
  assumes "\<not> complete_election c" and "election_while c = (r, c')"
  shows "Suc (phase c) \<le> phase c'"
proof -
  obtain r1 c1 where e: "election_phase c = (r1, c1)" by (cases "election_phase c")
  note k = election_phase_keeps[OF e]
  show ?thesis
  proof (cases r1)
    case (Some x)
    with assms e k show ?thesis by simp
  next
    case None
    with assms e have "election_while c1 = (r, c')" by simp
    from election_while_keeps[OF this] k show ?thesis by simp
  qed
qed

lemma election_while_too_many_seats:
  "int (length (winners c)) + int (length (participants c)) < seats c \<Longrightarrow>
   fst (election_while c) \<noteq> None"
proof (induction c rule: election_while.induct)
  case (1 c)
  from "1.prems" have nc: "\<not> complete_election c" by (simp add: complete_election_def)
  obtain r1 c1 where e: "election_phase c = (r1, c1)" by (cases "election_phase c")
  show ?case
  proof (cases r1)
    case (Some x)
    with nc e show ?thesis by simp
  next
    case None
    from election_phase_lengths[OF e[unfolded None]] election_phase_keeps[OF e] "1.prems"
    have "int (length (winners c1)) + int (length (participants c1)) < seats c1" by auto
    from "1.IH"[OF nc e[unfolded None, symmetric] refl this] nc e None show ?thesis by simp
  qed
qed

lemma complete_election_iff: "complete_election c \<longleftrightarrow> int (length (winners c)) = seats c"
  by (simp add: complete_election_def)

lemma assign_for_error: "fst (assign_for is c) = None \<or> fst (assign_for is c) = Some AttributeError"
  by (induction "is" arbitrary: c) (auto split: option.splits)

lemma election_while_complete: "complete_election c \<Longrightarrow> election_while c = (None, c)"
  by simp

lemma election_while_returns_complete: "election_while c = (None, c') \<Longrightarrow> complete_election c'"
proof (induction c rule: election_while.induct)
  case (1 c)
  show ?case
  proof (cases "complete_election c")
    case True
    with "1.prems" show ?thesis by simp
  next
    case False
    obtain r1 c1 where e: "election_phase c = (r1, c1)" by (cases "election_phase c")
    with False "1.prems" have r1: "r1 = None" by (cases r1) auto
    with False e "1.prems" have "election_while c1 = (None, c')" by simp
    from "1.IH"[OF False e[unfolded r1, symmetric] refl this] show ?thesis .
  qed
qed

lemma election_while_rounds:
  "election_while c = (r, c') \<Longrightarrow>
     phase c' \<le> phase c + length (participants c) + 1 \<and>
     (r = None \<longrightarrow> phase c' \<le> phase c + length (participants c))"
proof (induction c rule: election_while.induct)
  case (1 c)
  show ?case
  proof (cases "complete_election c")
    case True
    with "1.prems" show ?thesis by simp
  next
    case False
    obtain r1 c1 where e: "election_phase c = (r1, c1)" by (cases "election_phase c")
    note k = election_phase_keeps[OF e]
    show ?thesis
    proof (cases r1)
      case (Some x)
      with False e "1.prems" k show ?thesis by auto
    next
      case None
      with False e "1.prems" have w: "election_while c1 = (r, c')" by simp
      from election_phase_shrinks[OF e[unfolded None]]
        "1.IH"[OF False e[unfolded None, symmetric] refl w] k
      show ?thesis by auto
    qed
  qed
qed

lemma election_while_rounds_sharp:
  "election_while c = (None, c') \<Longrightarrow> int (length (winners c)) < seats c \<Longrightarrow>
   seats c < int (length (winners c)) + int (length (participants c)) \<Longrightarrow>
   phase c' < phase c + length (participants c)"
proof (induction c rule: election_while.induct)
  case (1 c)
  from "1.prems"(2) have nc: "\<not> complete_election c" by (simp add: complete_election_def)
  obtain r1 c1 where e: "election_phase c = (r1, c1)" by (cases "election_phase c")
  with nc "1.prems"(1) have r1: "r1 = None" by (cases r1) auto
  with nc e "1.prems"(1) have w: "election_while c1 = (None, c')" by simp
  note k = election_phase_keeps[OF e] and l = election_phase_lengths[OF e[unfolded r1]]
  show ?case
  proof (cases "complete_election c1")
    case True
    with w have "c' = c1" by simp
    with k "1.prems" show ?thesis by simp
  next
    case False
    then have ne: "int (length (winners c1)) \<noteq> seats c1" by (simp add: complete_election_iff)
    from l ne k "1.prems"(2,3) have
      "int (length (winners c1)) < seats c1 \<and>
       seats c1 < int (length (winners c1)) + int (length (participants c1)) \<and>
       Suc (length (participants c1)) = length (participants c)"
      by auto
    with "1.IH"[OF nc e[unfolded r1, symmetric] refl w] k show ?thesis by simp
  qed
qed

lemma ranking_mset: "mset (ranking c) = mset (participants c)"
  by (simp add: ranking_def)

lemma election_phase_names:
  assumes "election_phase c = (None, c')"
  shows "mset (all_names c') = mset (all_names c)"
  using assms
proof (cases rule: election_phase_cases)
  case (win first rest)
  have "mset (map name (participants c)) = mset (map name (first # rest))"
    using ranking_mset[of c] win(1) by (metis mset_map)
  moreover have "map name (participants c') = map name rest"
    "map name (winners c') = map name (winners c @ [first])"
    "eliminated c' = eliminated c"
    using migrate_keeps(1,7,8)[OF win(4)] by simp_all
  ultimately show ?thesis by (simp add: all_names_def)
next
  case elim
  have "mset (map name (participants c)) = mset (map name (butlast (ranking c) @ [last (ranking c)]))"
    using ranking_mset[of c] elim(1) by (metis mset_map append_butlast_last_id)
  moreover have "map name (participants c') = map name (butlast (ranking c))"
    "winners c' = winners c"
    "map name (eliminated c') = map name (eliminated c @ [last (ranking c)])"
    using migrate_keeps(1,6,9)[OF elim(4)] by simp_all
  ultimately show ?thesis by (simp add: all_names_def)
next
  case fill
  have "mset (map name (participants c)) = mset (map name (butlast (ranking c) @ [last (ranking c)]))"
    using ranking_mset[of c] fill(1) by (metis mset_map append_butlast_last_id)
  moreover have "map name (participants c') = []"
    "winners c' = winners c @ butlast (ranking c)"
    "map name (eliminated c') = map name (eliminated c @ [last (ranking c)])"
    using migrate_keeps(1,6,9)[OF fill(4)] by simp_all
  ultimately show ?thesis by (simp add: all_names_def)
qed simp_all

lemma round_boundary_invariant:
  assumes "round_boundary c0 c" and "int (length (winners c0)) \<le> seats c0"
  shows "mset (all_names c) = mset (all_names c0) \<and> seats c = seats c0 \<and>
         int (length (winners c)) \<le> seats c"
  using assms
proof (induction rule: round_boundary.induct)
  case start
  then show ?case by simp
next
  case (round c c')
  then have ih: "mset (all_names c) = mset (all_names c0)" "seats c = seats c0"
    "int (length (winners c)) \<le> seats c" by simp_all
  from round.hyps(2) ih(3) have lt: "int (length (winners c)) < seats c"
    by (simp add: complete_election_iff)
  from election_phase_lengths[OF round.hyps(3)] election_phase_keeps[OF round.hyps(3)] lt
  have "int (length (winners c')) \<le> seats c'" by auto
  with election_phase_names[OF round.hyps(3)] election_phase_keeps[OF round.hyps(3)] ih
  show ?case by simp
qed

lemma lighter_trans: "lighter a b \<Longrightarrow> lighter b c \<Longrightarrow> lighter a c"
  unfolding lighter_def by (meson order_trans)

lemma same_weights_trans: "same_weights a b \<Longrightarrow> same_weights b c \<Longrightarrow> same_weights a c"
  unfolding same_weights_def by simp

lemma same_weights_lighter: "same_weights a b \<Longrightarrow> \<forall>i. 0 \<le> weight (heap a i) \<Longrightarrow> lighter a b"
  unfolding same_weights_def lighter_def by simp

lemma update_at_weight:
  "update_at k i c = (r, c') \<Longrightarrow>
   weight (heap c' x) = (if x = i then weight (heap c i) * k else weight (heap c x))"
  by (auto simp: update_at_def vote_update_def Let_def split: list.splits)

lemma update_at_one_same: "update_at 1 i c = (r, c') \<Longrightarrow> same_weights c c'"
  unfolding same_weights_def using update_at_weight[of 1 i c r c'] by simp

lemma give_vote_same: "same_weights c (give_vote j i c)"
  by (simp add: same_weights_def give_vote_def)

lemma migrate_while_same: "migrate_while i c = (r, c') \<Longrightarrow> same_weights c c'"
proof (induction i c arbitrary: r c' rule: migrate_while.induct)
  case (1 i c)
  show ?case
  proof (cases "is_white (heap c i)")
    case True
    with "1.prems" show ?thesis by (simp add: same_weights_def)
  next
    case False
    show ?thesis
    proof (cases "find_participant c (first_choice (heap c i))")
      case (Some j)
      with False "1.prems" show ?thesis by (auto simp: give_vote_same)
    next
      case None
      obtain r1 c1 where u: "update_at 1 i c = (r1, c1)" by (cases "update_at 1 i c")
      show ?thesis
      proof (cases r1)
        case (Some e)
        with False None u "1.prems" show ?thesis by (auto simp: update_at_one_same)
      next
        case rn: None
        from False None u rn "1.prems" have "migrate_while i c1 = (r, c')" by simp
        from "1.IH"[OF False None u[unfolded rn, symmetric] refl this] update_at_one_same[OF u]
        show ?thesis by (rule same_weights_trans[rotated])
      qed
    qed
  qed
qed

lemma migrate_for_one_same: "migrate_for 1 is c = (r, c') \<Longrightarrow> same_weights c c'"
proof (induction "is" arbitrary: c)
  case Nil
  then show ?case by (simp add: same_weights_def)
next
  case (Cons i "is")
  obtain r1 c1 where u: "update_at 1 i c = (r1, c1)" by (cases "update_at 1 i c")
  obtain r2 c2 where w: "migrate_while i c1 = (r2, c2)" by (cases "migrate_while i c1")
  note f1 = update_at_one_same[OF u] and f2 = migrate_while_same[OF w]
  show ?case
  proof (cases r1)
    case (Some e)
    with Cons.prems u f1 show ?thesis by auto
  next
    case n1: None
    show ?thesis
    proof (cases r2)
      case (Some e)
      with Cons.prems u w n1 have "c' = c2" by simp
      with f1 f2 show ?thesis by (auto intro: same_weights_trans)
    next
      case None
      with Cons.prems u w n1 have "migrate_for 1 is c2 = (r, c')" by simp
      from Cons.IH[OF this] f1 f2 show ?thesis by (blast intro: same_weights_trans)
    qed
  qed
qed

lemma update_at_lighter:
  assumes "update_at k i c = (r, c')" and "0 \<le> k" and "k \<le> 1" and "\<forall>x. 0 \<le> weight (heap c x)"
  shows "lighter c c'"
  unfolding lighter_def
proof
  fix x
  have "0 \<le> weight (heap c i)" using assms(4) by simp
  then have "0 \<le> weight (heap c i) * k \<and> weight (heap c i) * k \<le> weight (heap c i)"
    using assms(2,3) by (simp add: mult_left_le)
  with update_at_weight[OF assms(1), of x] assms(4)
  show "0 \<le> weight (heap c' x) \<and> weight (heap c' x) \<le> weight (heap c x)" by simp
qed

lemma lighter_nonneg: "lighter c c' \<Longrightarrow> \<forall>x. 0 \<le> weight (heap c' x)"
  by (simp add: lighter_def)

lemma migrate_for_lighter:
  "migrate_for k is c = (r, c') \<Longrightarrow> 0 \<le> k \<Longrightarrow> k \<le> 1 \<Longrightarrow> \<forall>x. 0 \<le> weight (heap c x) \<Longrightarrow>
   lighter c c'"
proof (induction "is" arbitrary: c)
  case Nil
  then show ?case by (simp add: lighter_def)
next
  case (Cons i "is")
  obtain r1 c1 where u: "update_at k i c = (r1, c1)" by (cases "update_at k i c")
  obtain r2 c2 where w: "migrate_while i c1 = (r2, c2)" by (cases "migrate_while i c1")
  note f1 = update_at_lighter[OF u Cons.prems(2,3,4)]
  note f2 = same_weights_lighter[OF migrate_while_same[OF w] lighter_nonneg[OF f1]]
  note f12 = lighter_trans[OF f1 f2]
  show ?case
  proof (cases r1)
    case (Some e)
    with Cons.prems u f1 show ?thesis by auto
  next
    case n1: None
    show ?thesis
    proof (cases r2)
      case (Some e)
      with Cons.prems u w n1 have "c' = c2" by simp
      with f12 show ?thesis by simp
    next
      case None
      with Cons.prems u w n1 have "migrate_for k is c2 = (r, c')" by simp
      from Cons.IH[OF this Cons.prems(2,3) lighter_nonneg[OF f12]] f12 show ?thesis
        by (blast intro: lighter_trans)
    qed
  qed
qed

lemma migrate_heap:
  assumes "migrate pl k c = (r, c')"
  shows "\<exists>r1 c1. migrate_for k (votes (source_of pl c)) c = (r1, c1) \<and> heap c' = heap c1"
proof -
  obtain r1 c1 where f: "migrate_for k (votes (source_of pl c)) c = (r1, c1)"
    by (cases "migrate_for k (votes (source_of pl c)) c")
  with assms have "heap c' = heap c1"
    by (cases r1; cases pl) (auto simp: migrate_def clear_source_def)
  with f show ?thesis by blast
qed

lemma migrate_lighter:
  assumes "migrate pl k c = (r, c')" and "0 \<le> k" and "k \<le> 1" and "\<forall>x. 0 \<le> weight (heap c x)"
  shows "lighter c c'"
proof -
  from migrate_heap[OF assms(1)] obtain r1 c1 where
    f: "migrate_for k (votes (source_of pl c)) c = (r1, c1)" and h: "heap c' = heap c1" by blast
  from migrate_for_lighter[OF f assms(2,3,4)] h show ?thesis by (simp add: lighter_def)
qed

lemma migrate_one_same:
  assumes "migrate pl 1 c = (r, c')"
  shows "same_weights c c'"
proof -
  from migrate_heap[OF assms(1)] obtain r1 c1 where
    f: "migrate_for 1 (votes (source_of pl c)) c = (r1, c1)" and h: "heap c' = heap c1" by blast
  from migrate_for_one_same[OF f] h show ?thesis by (simp add: same_weights_def)
qed

lemma surplus_coefficient:
  fixes v q :: real
  assumes "0 < q" and "q \<le> v"
  shows "0 \<le> (v - q) / v \<and> (v - q) / v \<le> 1"
  using assms by (simp add: divide_le_eq)

lemma election_phase_lighter:
  assumes "election_phase c = (r, c')" and "0 < quota c" and "\<forall>x. 0 \<le> weight (heap c x)"
  shows "lighter c c'"
  using assms(1)
proof (cases rule: election_phase_cases)
  case empty
  with assms(3) show ?thesis by (simp add: lighter_def)
next
  case (zero first rest)
  with assms(3) show ?thesis by (simp add: lighter_def)
next
  case (win first rest)
  from surplus_coefficient[OF assms(2) win(2)] migrate_lighter[OF win(4)] assms(3)
  show ?thesis by (simp add: lighter_def)
next
  case elim
  from migrate_lighter[OF elim(4)] assms(3) show ?thesis by (simp add: lighter_def)
next
  case fill
  from migrate_lighter[OF fill(4)] assms(3) show ?thesis by (simp add: lighter_def)
qed

lemma election_phase_elimination_same:
  assumes "election_phase c = (r, c')" and "ranking c \<noteq> []"
      and "count_votes (heap c) (hd (ranking c)) < quota c"
  shows "same_weights c c'"
  using assms(1)
proof (cases rule: election_phase_cases)
  case empty
  with assms(2) show ?thesis by (simp add: ranking_Nil)
next
  case (zero first rest)
  with assms(3) show ?thesis by simp
next
  case (win first rest)
  with assms(3) show ?thesis by simp
next
  case elim
  from migrate_one_same[OF elim(4)] show ?thesis by (simp add: same_weights_def)
next
  case fill
  from migrate_one_same[OF fill(4)] show ?thesis by (simp add: same_weights_def)
qed

lemma Context_init_weights: "Context_init pnames s lines = Inr c \<Longrightarrow> weight (heap c i) = 1"
  by (auto simp: Context_init_def Let_def destroy_white_votes_def Vote_def split: if_splits)

lemma election_while_lighter:
  "election_while c = (r, c') \<Longrightarrow> 0 < quota c \<Longrightarrow> \<forall>x. 0 \<le> weight (heap c x) \<Longrightarrow> lighter c c'"
proof (induction c rule: election_while.induct)
  case (1 c)
  show ?case
  proof (cases "complete_election c")
    case True
    with "1.prems" show ?thesis by (simp add: lighter_def)
  next
    case False
    obtain r1 c1 where e: "election_phase c = (r1, c1)" by (cases "election_phase c")
    note l = election_phase_lighter[OF e "1.prems"(2,3)]
    show ?thesis
    proof (cases r1)
      case (Some x)
      with False e "1.prems" l show ?thesis by simp
    next
      case None
      with False e "1.prems" have w: "election_while c1 = (r, c')" by simp
      from election_phase_keeps[OF e] "1.prems"(2) have q: "0 < quota c1" by simp
      from "1.IH"[OF False e[unfolded None, symmetric] refl w q lighter_nonneg[OF l]] l
      show ?thesis by (blast intro: lighter_trans)
    qed
  qed
qed

lemma election_loop_lighter:
  assumes "election_loop c = (r, c')" and "0 < quota c" and "\<forall>x. 0 \<le> weight (heap c x)"
  shows "lighter c c'"
proof -
  obtain r1 c1 where a: "assign_for (ballots c) c = (r1, c1)" by (cases "assign_for (ballots c) c")
  from assign_for_frame[OF a] have f: "quota c1 = quota c" "heap c1 = heap c"
    by (simp_all add: frame_def)
  show ?thesis
  proof (cases r1)
    case (Some e)
    with a assms f show ?thesis by (simp add: election_loop_def lighter_def)
  next
    case None
    with a assms(1) have "election_while c1 = (r, c')" by (simp add: election_loop_def)
    from election_while_lighter[OF this] f assms(2,3) show ?thesis by (simp add: lighter_def)
  qed
qed

lemma find_participant_heap [simp]: "find_participant (c\<lparr>heap := h\<rparr>) n = find_participant c n"
  by (simp add: find_participant_def)

lemma settled_heap [simp]: "settled (c\<lparr>heap := h\<rparr>) ps = settled c ps"
  by (simp add: settled_def)

lemma first_choice_Cons: "prefs v = n # ns \<Longrightarrow> first_choice v = Some n"
  by (simp add: first_choice_def)

lemma update_at_one_Cons:
  "prefs (heap c i) = n # ns \<Longrightarrow>
   update_at 1 i c = (None, c\<lparr>heap := (heap c)(i := (heap c i)\<lparr>prefs := ns\<rparr>)\<rparr>)"
  by (simp add: update_at_def vote_update_def Let_def)

lemma heap_prefs_same:
  assumes "prefs (heap c i) = ps"
  shows "c\<lparr>heap := (heap c)(i := (heap c i)\<lparr>prefs := ps\<rparr>)\<rparr> = c"
proof -
  have "(heap c i)\<lparr>prefs := prefs (heap c i)\<rparr> = heap c i" by simp
  with assms have "(heap c i)\<lparr>prefs := ps\<rparr> = heap c i" by simp
  then show ?thesis by simp
qed

lemma placed_white: "prefs (heap c i) = [] \<Longrightarrow> placed i c = c"
  by (simp add: placed_def settled_def heap_prefs_same)

lemma placed_found:
  "prefs (heap c i) = n # ns \<Longrightarrow> find_participant c (Some n) = Some j \<Longrightarrow>
   placed i c = give_vote j i c"
  by (simp add: placed_def settled_def heap_prefs_same)

lemma placed_skip:
  assumes "prefs (heap c i) = n # ns" and "find_participant c (Some n) = None"
  shows "placed i (c\<lparr>heap := (heap c)(i := (heap c i)\<lparr>prefs := ns\<rparr>)\<rparr>) = placed i c"
proof -
  let ?c1 = "c\<lparr>heap := (heap c)(i := (heap c i)\<lparr>prefs := ns\<rparr>)\<rparr>"
  have s: "settled c (prefs (heap c i)) = settled c ns"
    using assms by (simp add: settled_def)
  have s1: "settled ?c1 (prefs (heap ?c1 i)) = settled c ns" by simp
  have h: "?c1\<lparr>heap := (heap ?c1)(i := (heap ?c1 i)\<lparr>prefs := settled c ns\<rparr>)\<rparr> =
           c\<lparr>heap := (heap c)(i := (heap c i)\<lparr>prefs := settled c ns\<rparr>)\<rparr>"
    by simp
  have f: "\<And>m. find_participant ?c1 m = find_participant c m" by simp
  show ?thesis by (simp only: placed_def Let_def s s1 h f)
qed

lemma migrate_while_placed: "migrate_while i c = (None, placed i c)"
proof (induction i c rule: migrate_while.induct)
  case (1 i c)
  show ?case
  proof (cases "prefs (heap c i)")
    case Nil
    then show ?thesis by (simp add: is_white_def placed_white)
  next
    case (Cons n ns)
    then have nw: "\<not> is_white (heap c i)" by (simp add: is_white_def)
    note fc = first_choice_Cons[OF Cons]
    show ?thesis
    proof (cases "find_participant c (Some n)")
      case (Some j)
      with nw fc placed_found[OF Cons Some] show ?thesis by simp
    next
      case None
      note u = update_at_one_Cons[OF Cons]
      from "1.IH"[OF nw None[folded fc] u[symmetric] refl] placed_skip[OF Cons None]
      have "migrate_while i (c\<lparr>heap := (heap c)(i := (heap c i)\<lparr>prefs := ns\<rparr>)\<rparr>) = (None, placed i c)"
        by simp
      with nw fc None u show ?thesis by simp
    qed
  qed
qed

lemma find_pos_Some: "find_pos ps n = Some j \<Longrightarrow> j < length ps \<and> Some (name (ps ! j)) = n"
proof (induction ps arbitrary: j)
  case Nil
  then show ?case by simp
next
  case (Cons p ps)
  then show ?case by (auto split: if_splits)
qed

lemma find_participant_Some:
  "find_participant c n = Some j \<Longrightarrow> j < length (participants c) \<and> Some (name (participants c ! j)) = n"
  unfolding find_participant_def by (rule find_pos_Some)

lemma frame_settled: "frame c c' \<Longrightarrow> settled c' ps = settled c ps"
  by (simp add: settled_def frame_find)

lemma holds_give_vote:
  "holds (give_vote j0 i c) j x \<longleftrightarrow>
     holds c j x \<or> (j = j0 \<and> x = i \<and> j0 < length (participants c))"
  by (cases "j = j0") (auto simp: holds_def give_vote_def add_vote_def)

lemma holds_heap [simp]: "holds (c\<lparr>heap := h\<rparr>) j x = holds c j x"
  by (simp add: holds_def)

lemma give_vote_heap_upd: "heap (give_vote j i c) = heap c"
  by (simp add: give_vote_def)

lemma placed_heap:
  "heap (placed i c) = (heap c)(i := (heap c i)\<lparr>prefs := settled c (prefs (heap c i))\<rparr>)"
  by (simp add: placed_def Let_def give_vote_heap_upd split: list.splits option.splits)

lemma placed_holds:
  "holds (placed i c) j x \<longleftrightarrow>
     holds c j x \<or>
     (x = i \<and> (case settled c (prefs (heap c i)) of [] \<Rightarrow> False
               | m # ms \<Rightarrow> find_participant c (Some m) = Some j))"
proof (cases "settled c (prefs (heap c i))")
  case Nil
  then show ?thesis by (simp add: placed_def)
next
  case (Cons m ms)
  show ?thesis
  proof (cases "find_participant c (Some m)")
    case None
    with Cons show ?thesis by (simp add: placed_def)
  next
    case (Some j0)
    from find_participant_Some[OF Some] have "j0 < length (participants c)" by simp
    with Cons Some show ?thesis by (auto simp: placed_def holds_give_vote)
  qed
qed

lemma placed_frame: "frame c (placed i c)"
  using migrate_while_frame[OF migrate_while_placed] .

lemma vote_rewritten: "v\<lparr>weight := w, prefs := ns\<rparr> = \<lparr>prefs = ns, weight = w\<rparr>"
  by (cases v) simp

lemma update_at_Cons:
  "prefs (heap c i) = n # ns \<Longrightarrow>
   update_at k i c =
     (None, c\<lparr>heap := (heap c)(i := \<lparr>prefs = ns, weight = weight (heap c i) * k\<rparr>)\<rparr>)"
  by (simp add: update_at_def vote_update_def Let_def vote_rewritten)

lemma body_spec:
  assumes "prefs (heap c i) = n # ns"
  shows "\<exists>c1 c2. update_at k i c = (None, c1) \<and> migrate_while i c1 = (None, c2) \<and>
           frame c c2 \<and> heap c2 = (heap c)(i := moved k c i) \<and>
           (\<forall>j x. holds c2 j x \<longleftrightarrow> holds c j x \<or> (x = i \<and> target k c i j))"
proof -
  let ?c1 = "c\<lparr>heap := (heap c)(i := \<lparr>prefs = ns, weight = weight (heap c i) * k\<rparr>)\<rparr>"
  let ?c2 = "placed i ?c1"
  have u: "update_at k i c = (None, ?c1)" by (rule update_at_Cons[OF assms])
  have w: "migrate_while i ?c1 = (None, ?c2)" by (rule migrate_while_placed)
  have f1: "frame c ?c1" by (simp add: frame_def)
  have f: "frame c ?c2" by (rule frame_trans[OF f1 placed_frame])
  have h: "heap ?c2 = (heap c)(i := moved k c i)"
    using assms by (simp add: placed_heap moved_def)
  have "\<forall>j x. holds ?c2 j x \<longleftrightarrow> holds c j x \<or> (x = i \<and> target k c i j)"
    using assms by (simp add: placed_holds target_def moved_def cong: list.case_cong)
  with u w f h show ?thesis by blast
qed

lemma moved_frame:
  "frame c c' \<Longrightarrow> heap c' x = heap c x \<Longrightarrow> moved k c' x = moved k c x"
  by (simp add: moved_def frame_settled)

lemma target_frame:
  "frame c c' \<Longrightarrow> heap c' x = heap c x \<Longrightarrow> target k c' x j = target k c x j"
  by (simp add: target_def moved_frame frame_find cong: list.case_cong)

lemma migrate_for_spec:
  assumes "distinct is" and "\<forall>i\<in>set is. prefs (heap c i) \<noteq> []"
  shows "\<exists>c'. migrate_for k is c = (None, c') \<and> frame c c' \<and>
           (\<forall>x. heap c' x = (if x \<in> set is then moved k c x else heap c x)) \<and>
           (\<forall>j x. holds c' j x \<longleftrightarrow> holds c j x \<or> (x \<in> set is \<and> target k c x j))"
  using assms
proof (induction "is" arbitrary: c)
  case Nil
  then show ?case by (simp add: frame_refl)
next
  case (Cons i "is")
  from Cons.prems(2) obtain n ns where p: "prefs (heap c i) = n # ns"
    by (cases "prefs (heap c i)") auto
  from body_spec[OF p, of k] obtain c1 c2 where
    u: "update_at k i c = (None, c1)" and w: "migrate_while i c1 = (None, c2)" and
    f: "frame c c2" and h: "heap c2 = (heap c)(i := moved k c i)" and
    ho: "\<forall>j x. holds c2 j x \<longleftrightarrow> holds c j x \<or> (x = i \<and> target k c i j)"
    by blast
  from Cons.prems(1) have d: "distinct is" and ni: "i \<notin> set is" by simp_all
  have same: "\<And>x. x \<in> set is \<Longrightarrow> heap c2 x = heap c x" using h ni by auto
  with Cons.prems(2) have nw: "\<forall>x\<in>set is. prefs (heap c2 x) \<noteq> []" by simp
  from Cons.IH[OF d nw] obtain c' where
    m: "migrate_for k is c2 = (None, c')" and f': "frame c2 c'" and
    h': "\<forall>x. heap c' x = (if x \<in> set is then moved k c2 x else heap c2 x)" and
    ho': "\<forall>j x. holds c' j x \<longleftrightarrow> holds c2 j x \<or> (x \<in> set is \<and> target k c2 x j)"
    by blast
  have r: "migrate_for k (i # is) c = (None, c')" using u w m by simp
  have fr: "frame c c'" by (rule frame_trans[OF f f'])
  have hh: "\<forall>x. heap c' x = (if x \<in> set (i # is) then moved k c x else heap c x)"
  proof
    fix x
    show "heap c' x = (if x \<in> set (i # is) then moved k c x else heap c x)"
    proof (cases "x \<in> set is")
      case True
      with h' moved_frame[OF f same[OF True], of k] ni show ?thesis by auto
    next
      case False
      with h' h show ?thesis by simp
    qed
  qed
  have hl: "\<forall>j x. holds c' j x \<longleftrightarrow> holds c j x \<or> (x \<in> set (i # is) \<and> target k c x j)"
  proof (intro allI)
    fix j x
    show "holds c' j x \<longleftrightarrow> holds c j x \<or> (x \<in> set (i # is) \<and> target k c x j)"
    proof (cases "x \<in> set is")
      case True
      with ho ho' target_frame[OF f same[OF True], of k j] ni show ?thesis by auto
    next
      case False
      with ho ho' show ?thesis by auto
    qed
  qed
  from r fr hh hl show ?case by blast
qed

lemma is_white_iff: "is_white v \<longleftrightarrow> prefs v = []"
  by (auto simp: is_white_def)

lemma filter_eq_upt: "j < n \<Longrightarrow> filter (\<lambda>x. x = j) [0 ..< n] = [j]"
proof (induction n)
  case 0
  then show ?case by simp
next
  case (Suc n)
  show ?case
  proof (cases "j = n")
    case True
    have "filter (\<lambda>x. x = n) [0 ..< n] = []" by (simp add: filter_empty_conv)
    with True show ?thesis by simp
  next
    case False
    with Suc have "filter (\<lambda>x. x = j) [0 ..< n] = [j]" by simp
    with False show ?thesis by simp
  qed
qed

lemma holders_holds: "holders c x = filter (\<lambda>j. holds c j x) [0 ..< length (participants c)]"
  unfolding holders_def by (rule filter_cong) (simp_all add: holds_def)

lemma holders_Nil: "holders c x = [] \<longleftrightarrow> (\<forall>j. \<not> holds c j x)"
  by (auto simp: holders_holds filter_empty_conv holds_def)

lemma holders_single:
  assumes "\<forall>j'. holds c j' x \<longleftrightarrow> j' = j"
  shows "holders c x = [j]"
proof -
  from assms have "holds c j x" by simp
  then have lt: "j < length (participants c)" by (simp add: holds_def)
  have "holders c x = filter (\<lambda>j'. j' = j) [0 ..< length (participants c)]"
    unfolding holders_holds using assms by simp
  with filter_eq_upt[OF lt] show ?thesis by simp
qed

lemma settled_head:
  "settled c ps = m # ms \<Longrightarrow> \<exists>j. find_participant c (Some m) = Some j"
proof -
  assume s: "settled c ps = m # ms"
  then have "dropWhile (\<lambda>n. find_participant c (Some n) = None) ps \<noteq> []"
    by (simp add: settled_def)
  from hd_dropWhile[OF this] s have "find_participant c (Some m) \<noteq> None"
    by (simp add: settled_def)
  then show ?thesis by auto
qed

lemma source_cleared: "votes (source_of pl (clear_source pl c)) = []"
  by (cases pl) (simp_all add: source_of_def clear_source_def participant_clear_def)

lemma clear_source_keeps:
  "heap (clear_source pl c) = heap c" "participants (clear_source pl c) = participants c"
  by (cases pl; simp add: clear_source_def)+



subsection \<open>Ownership is kept, and valid elections complete\<close>

text \<open>
  The constructor and the initial assignment establish \<open>owned\<close> and every round keeps
  it, so in a run the ballots of the source of a migration are distinct, not white and in
  no list of an active candidate, and no \<open>Vote.update\<close> fails. With at least one
  seat, fewer seats than candidates and ballots whose first preference is a candidate,
  \<open>election_loop\<close> therefore returns without error.
\<close>

lemma concat_votes_update:
  "j < length ps \<Longrightarrow>
   mset (concat (map votes (ps[j := add_vote i (ps ! j)]))) = mset (concat (map votes ps)) + {#i#}"
proof (induction ps arbitrary: j)
  case Nil
  then show ?case by simp
next
  case (Cons p ps)
  show ?case
  proof (cases j)
    case 0
    then show ?thesis by (simp add: add_vote_def)
  next
    case (Suc j')
    with Cons.prems have "j' < length ps" by simp
    from Cons.IH[OF this] Suc show ?thesis by simp
  qed
qed

lemma held_heap [simp]: "held (c\<lparr>heap := h\<rparr>) = held c"
  by (simp add: held_def)

lemma held_give_vote: "j < length (participants c) \<Longrightarrow> held (give_vote j i c) = held c + {#i#}"
  by (simp add: held_def give_vote_def concat_votes_update)

lemma held_placed: "held (placed i c) \<subseteq># held c + {#i#}"
proof (cases "settled c (prefs (heap c i))")
  case Nil
  then show ?thesis by (simp add: placed_def)
next
  case (Cons m ms)
  from settled_head[OF Cons] obtain j where j: "find_participant c (Some m) = Some j" by blast
  from find_participant_Some[OF j] have "j < length (participants c)" by simp
  with Cons j show ?thesis by (simp add: placed_def held_give_vote give_vote_def held_def concat_votes_update)
qed

lemma held_update_at: "update_at k i c = (r, c') \<Longrightarrow> held c' = held c"
  by (auto simp: update_at_def held_def split: prod.splits)

lemma migrate_for_held: "migrate_for k is c = (r, c') \<Longrightarrow> held c' \<subseteq># held c + mset is"
proof (induction "is" arbitrary: c)
  case Nil
  then show ?case by simp
next
  case (Cons i "is")
  obtain r1 c1 where u: "update_at k i c = (r1, c1)" by (cases "update_at k i c")
  note h1 = held_update_at[OF u]
  have w: "migrate_while i c1 = (None, placed i c1)" by (rule migrate_while_placed)
  have h2: "held (placed i c1) \<subseteq># held c + {#i#}" using held_placed[of i c1] h1 by simp
  show ?case
  proof (cases r1)
    case (Some e)
    with Cons.prems u h1 show ?thesis by auto
  next
    case None
    with Cons.prems u w have "migrate_for k is (placed i c1) = (r, c')" by simp
    from Cons.IH[OF this] have "held c' \<subseteq># held (placed i c1) + mset is" .
    also have "\<dots> \<subseteq># (held c + {#i#}) + mset is" using h2 by (simp add: subset_mset.add_mono)
    finally show ?thesis by (simp add: ac_simps)
  qed
qed

lemma distinct_submset:
  assumes "mset ys \<subseteq># mset xs" and "distinct xs"
  shows "distinct ys"
proof -
  from assms(1) obtain zs where "mset xs = mset ys + zs"
    by (auto simp: mset_subset_eq_exists_conv)
  moreover obtain ws where "mset ws = zs" using ex_mset by blast
  ultimately have "mset xs = mset (ys @ ws)" by simp
  with assms(2) have "distinct (ys @ ws)" by (metis mset_eq_imp_distinct_iff)
  then show ?thesis by simp
qed

lemma held_holds: "x \<in># held c \<longleftrightarrow> (\<exists>j. holds c j x)"
proof
  assume "x \<in># held c"
  then obtain p where "p \<in> set (participants c)" "x \<in> set (votes p)"
    by (auto simp: held_def)
  then show "\<exists>j. holds c j x" unfolding holds_def by (metis in_set_conv_nth)
next
  assume "\<exists>j. holds c j x"
  then show "x \<in># held c" by (auto simp: held_def holds_def)
qed

lemma migrate_for_owned:
  assumes "owned c" and "distinct is"
      and "\<forall>i\<in>set is. i \<notin># held c" and "\<forall>i\<in>set is. prefs (heap c i) \<noteq> []"
  shows "\<exists>c'. migrate_for k is c = (None, c') \<and> owned c'"
proof -
  from migrate_for_spec[OF assms(2,4), of k] obtain c' where
    m: "migrate_for k is c = (None, c')" and
    h: "\<forall>x. heap c' x = (if x \<in> set is then moved k c x else heap c x)" and
    ho: "\<forall>j x. holds c' j x \<longleftrightarrow> holds c j x \<or> (x \<in> set is \<and> target k c x j)"
    by blast
  let ?xs = "concat (map votes (participants c))"
  let ?ys = "concat (map votes (participants c'))"
  from assms(1) have d: "distinct ?xs" and nw: "\<forall>x\<in>set ?xs. prefs (heap c x) \<noteq> []"
    by (simp_all add: owned_def list_all_iff)
  from assms(3) have "set ?xs \<inter> set is = {}" by (auto simp: held_def)
  with d assms(2) have "distinct (?xs @ is)" by simp
  moreover from migrate_for_held[OF m] have "mset ?ys \<subseteq># mset (?xs @ is)" by (simp add: held_def)
  ultimately have d': "distinct ?ys" by (rule distinct_submset[rotated])
  have "\<forall>x\<in>set ?ys. prefs (heap c' x) \<noteq> []"
  proof
    fix x assume "x \<in> set ?ys"
    then have "x \<in># held c'" by (simp add: held_def)
    then obtain j where j: "holds c' j x" by (auto simp: held_holds)
    show "prefs (heap c' x) \<noteq> []"
    proof (cases "x \<in> set is")
      case True
      with j ho assms(3) have "target k c x j" by (auto simp: held_holds)
      then have "prefs (moved k c x) \<noteq> []" by (auto simp: target_def)
      with h True show ?thesis by simp
    next
      case False
      with j ho have "holds c j x" by simp
      then have "x \<in> set ?xs" using held_holds[of x c] by (auto simp: held_def)
      with nw have "prefs (heap c x) \<noteq> []" by blast
      with h False show ?thesis by simp
    qed
  qed
  with d' m show ?thesis by (auto simp: owned_def list_all_iff)
qed

lemma mset_concat_votes: "mset (concat (map votes ps)) = sum_mset (image_mset (\<lambda>p. mset (votes p)) (mset ps))"
  by (induction ps) simp_all

lemma ranking_held: "mset (concat (map votes (ranking c))) = held c"
  unfolding held_def mset_concat_votes by (simp add: ranking_mset)

lemma owned_clear_source: "owned (clear_source pl c) = owned c"
  by (simp add: owned_def clear_source_keeps)

lemma migrate_owned:
  assumes "owned c" and "distinct (votes (source_of pl c))"
      and "\<forall>i\<in>set (votes (source_of pl c)). i \<notin># held c"
      and "\<forall>i\<in>set (votes (source_of pl c)). prefs (heap c i) \<noteq> []"
  shows "\<exists>c'. migrate pl k c = (None, c') \<and> owned c'"
proof -
  from migrate_for_owned[OF assms, of k] obtain c1 where
    "migrate_for k (votes (source_of pl c)) c = (None, c1)" "owned c1" by blast
  then show ?thesis by (simp add: migrate_def owned_clear_source)
qed

lemma election_phase_owned:
  assumes "owned c" and "0 < quota c" and "participants c \<noteq> []"
  shows "\<exists>c'. election_phase c = (None, c') \<and> owned c'"
proof -
  let ?r = "ranking c"
  from assms(1) have "distinct (concat (map votes (participants c)))" by (simp add: owned_def)
  then have d: "distinct (concat (map votes ?r))"
    using ranking_held[of c] by (metis held_def mset_eq_imp_distinct_iff)
  have s: "set (concat (map votes ?r)) = set (concat (map votes (participants c)))"
    using ranking_held[of c] by (metis held_def mset_eq_setD)
  with assms(1) have nw: "\<forall>x\<in>set (concat (map votes ?r)). prefs (heap c x) \<noteq> []"
    by (simp add: owned_def list_all_iff)
  obtain r c' where e: "election_phase c = (r, c')" by (cases "election_phase c")
  from e show ?thesis
  proof (cases rule: election_phase_cases)
    case empty
    with assms(3) show ?thesis by simp
  next
    case (zero first rest)
    with assms(2) show ?thesis by simp
  next
    case (win first rest)
    let ?c3 = "c\<lparr>phase := Suc (phase c), winners := winners c @ [first], participants := rest\<rparr>"
    from d nw win(1) have o: "owned ?c3" by (simp add: owned_def list_all_iff)
    have src: "votes (source_of In_winners ?c3) = votes first" by (simp add: source_of_def)
    from d win(1) have d1: "distinct (votes (source_of In_winners ?c3))" by (simp add: src)
    from d win(1) have d2: "\<forall>i\<in>set (votes (source_of In_winners ?c3)). i \<notin># held ?c3"
      by (auto simp: src held_def)
    from nw win(1) have d3: "\<forall>i\<in>set (votes (source_of In_winners ?c3)). prefs (heap ?c3 i) \<noteq> []"
      by (simp add: src)
    from migrate_owned[OF o d1 d2 d3,
        of "(count_votes (heap c) first - quota c) / count_votes (heap c) first"] win(4) e
    show ?thesis by auto
  next
    case elim
    let ?c3 = "c\<lparr>phase := Suc (phase c), participants := butlast ?r,
                  eliminated := eliminated c @ [last ?r]\<rparr>"
    have "concat (map votes (butlast ?r @ [last ?r])) =
          concat (map votes (butlast ?r)) @ votes (last ?r)" by simp
    then have sp: "concat (map votes ?r) = concat (map votes (butlast ?r)) @ votes (last ?r)"
      unfolding append_butlast_last_id[OF elim(1)] .
    from d have dd: "distinct (concat (map votes (butlast ?r)) @ votes (last ?r))"
      unfolding sp .
    from nw have nn: "\<forall>x\<in>set (concat (map votes (butlast ?r)) @ votes (last ?r)). prefs (heap c x) \<noteq> []"
      unfolding sp .
    from dd nn have o: "owned ?c3" by (simp add: owned_def list_all_iff)
    have src: "votes (source_of In_eliminated ?c3) = votes (last ?r)" by (simp add: source_of_def)
    from dd have d1: "distinct (votes (source_of In_eliminated ?c3))" by (simp add: src)
    from dd have d2: "\<forall>i\<in>set (votes (source_of In_eliminated ?c3)). i \<notin># held ?c3"
      by (auto simp: src held_def)
    from nn have d3: "\<forall>i\<in>set (votes (source_of In_eliminated ?c3)). prefs (heap ?c3 i) \<noteq> []"
      by (simp add: src)
    from migrate_owned[OF o d1 d2 d3, of 1] elim(4) e show ?thesis by auto
  next
    case fill
    let ?c3 = "c\<lparr>phase := Suc (phase c), eliminated := eliminated c @ [last ?r],
                  winners := winners c @ butlast ?r, participants := []\<rparr>"
    have "concat (map votes (butlast ?r @ [last ?r])) =
          concat (map votes (butlast ?r)) @ votes (last ?r)" by simp
    then have sp: "concat (map votes ?r) = concat (map votes (butlast ?r)) @ votes (last ?r)"
      unfolding append_butlast_last_id[OF fill(1)] .
    from d have dd: "distinct (concat (map votes (butlast ?r)) @ votes (last ?r))"
      unfolding sp .
    from nw have nn: "\<forall>x\<in>set (concat (map votes (butlast ?r)) @ votes (last ?r)). prefs (heap c x) \<noteq> []"
      unfolding sp .
    have o: "owned ?c3" by (simp add: owned_def)
    have src: "votes (source_of In_eliminated ?c3) = votes (last ?r)" by (simp add: source_of_def)
    from dd have d1: "distinct (votes (source_of In_eliminated ?c3))" by (simp add: src)
    have d2: "\<forall>i\<in>set (votes (source_of In_eliminated ?c3)). i \<notin># held ?c3"
      by (simp add: held_def)
    from nn have d3: "\<forall>i\<in>set (votes (source_of In_eliminated ?c3)). prefs (heap ?c3 i) \<noteq> []"
      by (simp add: src)
    from migrate_owned[OF o d1 d2 d3, of 1] fill(4) e show ?thesis by auto
  qed
qed

lemma election_while_completes:
  "owned c \<Longrightarrow> 0 < quota c \<Longrightarrow> int (length (winners c)) < seats c \<Longrightarrow>
   seats c < int (length (winners c)) + int (length (participants c)) \<Longrightarrow>
   fst (election_while c) = None"
proof (induction c rule: election_while.induct)
  case (1 c)
  from "1.prems"(3) have nc: "\<not> complete_election c" by (simp add: complete_election_iff)
  from "1.prems"(3,4) have ne: "participants c \<noteq> []" by auto
  from election_phase_owned[OF "1.prems"(1,2) ne] obtain c1 where
    e: "election_phase c = (None, c1)" and o: "owned c1" by blast
  note k = election_phase_keeps[OF e] and l = election_phase_lengths[OF e]
  show ?case
  proof (cases "complete_election c1")
    case True
    with nc e show ?thesis by simp
  next
    case False
    then have "int (length (winners c1)) \<noteq> seats c1" by (simp add: complete_election_iff)
    with l k "1.prems"(3,4) have
      "int (length (winners c1)) < seats c1 \<and>
       seats c1 < int (length (winners c1)) + int (length (participants c1))"
      by auto
    with "1.IH"[OF nc e[symmetric] refl o] k "1.prems"(2) have "fst (election_while c1) = None"
      by simp
    with nc e show ?thesis by simp
  qed
qed

lemma give_vote_owned:
  assumes "owned c" and "i \<notin># held c" and "prefs (heap c i) \<noteq> []"
      and "j < length (participants c)"
  shows "owned (give_vote j i c)"
proof -
  let ?xs = "concat (map votes (participants c))"
  let ?ys = "concat (map votes (participants (give_vote j i c)))"
  from held_give_vote[OF assms(4), of i] have m: "mset ?ys = mset (?xs @ [i])"
    by (simp add: held_def)
  from assms(1,2) have "distinct (?xs @ [i])" by (simp add: owned_def held_def)
  with m have d: "distinct ?ys" by (metis mset_eq_imp_distinct_iff)
  from m have "set ?ys = set (?xs @ [i])" by (metis mset_eq_setD)
  with assms(1,3) have "\<forall>x\<in>set ?ys. prefs (heap (give_vote j i c) x) \<noteq> []"
    by (simp add: owned_def list_all_iff give_vote_heap)
  with d show ?thesis by (simp add: owned_def list_all_iff)
qed

lemma assign_for_owned:
  assumes "owned c" and "distinct is" and "\<forall>i\<in>set is. i \<notin># held c"
      and "\<forall>i\<in>set is. prefs (heap c i) \<noteq> []"
      and "\<forall>i\<in>set is. find_participant c (first_choice (heap c i)) \<noteq> None"
  shows "\<exists>c'. assign_for is c = (None, c') \<and> owned c'"
  using assms
proof (induction "is" arbitrary: c)
  case Nil
  then show ?case by simp
next
  case (Cons i "is")
  from Cons.prems(5) obtain j where j: "find_participant c (first_choice (heap c i)) = Some j"
    by auto
  from find_participant_Some[OF j] have lt: "j < length (participants c)" by simp
  let ?c1 = "give_vote j i c"
  from Cons.prems(1,3,4) lt have o: "owned ?c1" by (simp add: give_vote_owned)
  from Cons.prems(2) have d: "distinct is" and ni: "i \<notin> set is" by simp_all
  from Cons.prems(3) ni have h: "\<forall>x\<in>set is. x \<notin># held ?c1"
    by (auto simp: held_give_vote[OF lt])
  from Cons.prems(4) have p: "\<forall>x\<in>set is. prefs (heap ?c1 x) \<noteq> []"
    by (simp add: give_vote_heap)
  from Cons.prems(5) have f: "\<forall>x\<in>set is. find_participant ?c1 (first_choice (heap ?c1 x)) \<noteq> None"
    by (simp add: give_vote_heap frame_find[OF give_vote_frame])
  from Cons.IH[OF o d h p f] j show ?case by simp
qed

lemma find_pos_member: "n \<in> name ` set ps \<Longrightarrow> find_pos ps (Some n) \<noteq> None"
  by (induction ps) auto

lemma Context_init_start:
  assumes "Context_init pnames s lines = Inr c"
  shows "participants c = map Participant pnames" and "winners c = []" and "eliminated c = []"
    and "phase c = 0" and "seats c = s"
    and "ballots c = filter (\<lambda>i. lines ! i \<noteq> []) [0 ..< length lines]"
    and "\<And>i. i < length lines \<Longrightarrow> heap c i = Vote (lines ! i)"
    and "0 \<le> s \<Longrightarrow> 0 < quota c"
proof -
  from assms have nz: "real_of_int s + 1 \<noteq> 0"
    by (auto simp: Context_init_def Let_def split: if_splits)
  with assms show "participants c = map Participant pnames" "winners c = []" "eliminated c = []"
    "phase c = 0" "seats c = s"
    by (auto simp: Context_init_def Let_def destroy_white_votes_def)
  from assms nz show "ballots c = filter (\<lambda>i. lines ! i \<noteq> []) [0 ..< length lines]"
    by (auto simp: Context_init_def Let_def destroy_white_votes_def is_white_iff Vote_def
             intro!: filter_cong)
  from assms nz show "\<And>i. i < length lines \<Longrightarrow> heap c i = Vote (lines ! i)"
    by (auto simp: Context_init_def Let_def destroy_white_votes_def)
  assume "0 \<le> s"
  then have "0 \<le> real (length (ballots c)) / (real_of_int s + 1)" by simp
  then have "1 \<le> \<lceil>1 + real (length (ballots c)) / (real_of_int s + 1)\<rceil>" by linarith
  moreover from assms nz have "quota c = of_int \<lceil>1 + real (length (ballots c)) / (real_of_int s + 1)\<rceil>"
    by (auto simp: Context_init_def Let_def destroy_white_votes_def)
  ultimately show "0 < quota c" by simp
qed

lemma concat_empties: "concat (map (\<lambda>x. []) xs) = []"
  by (induction xs) simp_all

lemma election_completes:
  assumes "Context_init pnames s lines = Inr c" and "1 \<le> s" and "s < int (length pnames)"
      and "\<forall>l\<in>set lines. l = [] \<or> hd l \<in> set pnames"
  shows "\<exists>c'. election_loop c = (None, c') \<and> complete_election c' \<and> phase c' < length pnames"
proof -
  note st = Context_init_start[OF assms(1)]
  from assms(2) have q: "0 < quota c" by (simp add: st(8))
  have o: "owned c" by (simp add: owned_def st(1) Participant_def comp_def concat_empties)
  have h0: "held c = {#}" by (simp add: held_def st(1) Participant_def comp_def concat_empties)
  have d: "distinct (ballots c)" by (simp add: st(6))
  have b: "\<forall>i\<in>set (ballots c). i \<notin># held c" by (simp add: h0)
  have p: "\<forall>i\<in>set (ballots c). prefs (heap c i) \<noteq> []"
    by (simp add: st(6,7) Vote_def)
  have f: "\<forall>i\<in>set (ballots c). find_participant c (first_choice (heap c i)) \<noteq> None"
  proof
    fix i assume "i \<in> set (ballots c)"
    then have i: "i < length lines" "lines ! i \<noteq> []" by (simp_all add: st(6))
    with assms(4) have "hd (lines ! i) \<in> set pnames" by (metis nth_mem)
    then have "hd (lines ! i) \<in> name ` set (participants c)"
      by (simp add: st(1) Participant_def image_comp comp_def)
    from find_pos_member[OF this] i
    show "find_participant c (first_choice (heap c i)) \<noteq> None"
      by (simp add: find_participant_def first_choice_def st(7) Vote_def hd_conv_nth)
  qed
  from assign_for_owned[OF o d b p f] obtain c1 where
    a: "assign_for (ballots c) c = (None, c1)" and o1: "owned c1" by blast
  from assign_for_frame[OF a] st have f1: "length (participants c1) = length pnames"
    "winners c1 = []" "phase c1 = 0" "seats c1 = s" "quota c1 = quota c"
    unfolding frame_def by (auto dest: map_eq_imp_length_eq)
  have c1: "int (length (winners c1)) < seats c1"
    "seats c1 < int (length (winners c1)) + int (length (participants c1))"
    using f1 assms(2,3) by simp_all
  from election_while_completes[OF o1 _ c1] q f1 have "fst (election_while c1) = None" by simp
  then obtain c' where w: "election_while c1 = (None, c')" by (cases "election_while c1") auto
  from election_while_rounds_sharp[OF w c1] f1 have "phase c' < length pnames" by simp
  with election_while_returns_complete[OF w] a w show ?thesis by (simp add: election_loop_def)
qed


lemma round_boundary_owned:
  assumes "round_boundary c0 c" and "owned c0" and "0 < quota c0"
  shows "owned c \<and> quota c = quota c0"
  using assms
proof (induction rule: round_boundary.induct)
  case start
  then show ?case by simp
next
  case (round c c')
  then have o: "owned c" and q: "quota c = quota c0" by simp_all
  have ne: "participants c \<noteq> []"
  proof
    assume "participants c = []"
    with round.hyps(3) show False
      by (simp add: election_phase_def Let_def ranking_def)
  qed
  from election_phase_owned[OF o _ ne] q round.prems(2) round.hyps(3) have "owned c'" by auto
  with election_phase_keeps[OF round.hyps(3)] q show ?case by simp
qed

subsection \<open>The weight held by the active candidates\<close>








subsection \<open>The quota and the seats\<close>

text \<open>
  For a seat count that is not negative, the quota of the constructor is the quota of the
  specification when \<open>seats + 1\<close> divides the number of valid ballots, and one more
  otherwise; the tally never assigns it again. No seat count is checked: with 0 seats the
  loop returns at once, and \<open>-1\<close> is the one value the constructor fails on, by the
  division.
\<close>

lemma ceiling_quotient:
  fixes a b :: int
  assumes "0 < b"
  shows "\<lceil>real_of_int a / real_of_int b\<rceil> = a div b + (if b dvd a then 0 else 1)"
proof -
  have "\<lceil>real_of_int a / real_of_int b\<rceil> = - ((- a) div b)"
    by (simp add: ceiling_divide_eq_div)
  also have "\<dots> = a div b + (if b dvd a then 0 else 1)"
    using assms by (simp add: zdiv_zminus1_eq_if dvd_eq_mod_eq_0)
  finally show ?thesis .
qed

lemma quota_against_droop:
  assumes "Context_init pnames s lines = Inr c" and "0 \<le> s"
  shows "quota c = droop_quota (length (ballots c)) s +
           (if (s + 1) dvd int (length (ballots c)) then 0 else 1)"
proof -
  let ?v = "length (ballots c)"
  from assms(2) have p: "0 < s + 1" by simp
  then have nz: "real_of_int s + 1 \<noteq> 0" by (metis of_int_1 of_int_add of_int_eq_0_iff less_irrefl)
  from assms(1) nz have q: "quota c = of_int \<lceil>1 + real ?v / (real_of_int s + 1)\<rceil>"
    by (auto simp: Context_init_def Let_def destroy_white_votes_def)
  have r: "real ?v / (real_of_int s + 1) = real_of_int (int ?v) / real_of_int (s + 1)" by simp
  have "\<lceil>1 + real ?v / (real_of_int s + 1)\<rceil> = 1 + \<lceil>real_of_int (int ?v) / real_of_int (s + 1)\<rceil>"
    unfolding r by (metis add.commute ceiling_add_one)
  also have "\<dots> = 1 + (int ?v div (s + 1) + (if (s + 1) dvd int ?v then 0 else 1))"
    by (simp only: ceiling_quotient[OF p])
  finally have c: "\<lceil>1 + real ?v / (real_of_int s + 1)\<rceil> =
     1 + (int ?v div (s + 1) + (if (s + 1) dvd int ?v then 0 else 1))" .
  have "\<lfloor>real ?v / (real_of_int s + 1)\<rfloor> = int ?v div (s + 1)"
    unfolding r by (simp only: floor_divide_of_int_eq)
  then have d: "droop_quota ?v s = of_int (int ?v div (s + 1) + 1)" by (simp add: droop_quota_def)
  show ?thesis unfolding q c d by simp
qed

lemma election_loop_keeps_quota: "election_loop c = (r, c') \<Longrightarrow> quota c' = quota c"
proof -
  assume e: "election_loop c = (r, c')"
  obtain r1 c1 where a: "assign_for (ballots c) c = (r1, c1)" by (cases "assign_for (ballots c) c")
  from assign_for_frame[OF a] have q: "quota c1 = quota c" by (simp add: frame_def)
  show ?thesis
  proof (cases r1)
    case (Some x)
    with a e q show ?thesis by (simp add: election_loop_def)
  next
    case None
    with a e have "election_while c1 = (r, c')" by (simp add: election_loop_def)
    from election_while_keeps[OF this] q show ?thesis by simp
  qed
qed

lemma zero_seats_accepted:
  "\<exists>c. Context_init pnames 0 lines = Inr c \<and> election_while c = (None, c)"
  by (simp add: Context_init_def Let_def destroy_white_votes_def complete_election_def)

lemma minus_one_seat_rejected: "Context_init pnames (- 1) lines = Inl ZeroDivisionError"
  by (simp add: Context_init_def Let_def)

section \<open>Properties\<close>

text \<open>
  C9. \<open>Vote.update\<close> on a vote with no preference left raises IndexError, and the
  vote keeps the weight multiplied by the coefficient: the multiplication came first and
  is not undone. No preference was removed, as there was none.
\<close>

theorem update_exhausted_not_atomic:
  "prefs v = [] \<Longrightarrow>
     vote_update wcoef v = (Some IndexError, v\<lparr>weight := weight v * wcoef\<rparr>) \<and>
     prefs (snd (vote_update wcoef v)) = [] \<and>
     weight (snd (vote_update wcoef v)) = weight v * wcoef"
  by (simp add: vote_update_def Let_def)

theorem update_exhausted_not_atomic_witness:
  "prefs (Vote []) = [] \<and>
   vote_update (1/2) (Vote []) = (Some IndexError, \<lparr>prefs = [], weight = 1/2\<rparr>) \<and>
   weight (snd (vote_update (1/2) (Vote [])))  = 1/2"
  using update_exhausted_not_atomic [of "Vote []" "1/2"] by (simp add: Vote_def)

text \<open>
  C10. In the initial assignment, a ballot whose first preference names no candidate of
  the context makes \<open>election_loop\<close> raise AttributeError (\<open>add_vote\<close> is
  called on the None that \<open>find_participant\<close> returned). The ballot is neither
  skipped nor dropped, and no round runs: the round counter, the winners, the eliminated,
  the active candidates and every ballot are as before the call.
\<close>

theorem unknown_first_preference_fails:
  assumes "i \<in> set (ballots c)"
      and "first_choice (heap c i) = Some n"
      and "find_participant c (Some n) = None"
  shows "\<exists>c'. election_loop c = (Some AttributeError, c') \<and> phase c' = phase c \<and>
           winners c' = winners c \<and> eliminated c' = eliminated c \<and>
           map name (participants c') = map name (participants c) \<and> heap c' = heap c"
proof -
  obtain r c' where a: "assign_for (ballots c) c = (r, c')" by (cases "assign_for (ballots c) c")
  from assign_for_unknown[OF assms(1), of c] assms(2,3) a have r: "r = Some AttributeError" by simp
  from assign_for_frame[OF a] have "frame c c'" "heap c' = heap c" by simp_all
  with a r show ?thesis by (simp add: election_loop_def frame_def)
qed

theorem unknown_first_preference_fails_witness:
  "0 \<in> set (ballots unknown_example) \<and>
   first_choice (heap unknown_example 0) = Some ''B'' \<and>
   find_participant unknown_example (Some ''B'') = None \<and>
   (\<exists>c'. election_loop unknown_example = (Some AttributeError, c') \<and> phase c' = 0 \<and>
      winners c' = [] \<and> eliminated c' = [])"
proof -
  have h1: "0 \<in> set (ballots unknown_example)" by (simp add: unknown_example_def)
  have h2: "first_choice (heap unknown_example 0) = Some ''B''"
    by (simp add: unknown_example_def first_choice_def Vote_def)
  have h3: "find_participant unknown_example (Some ''B'') = None"
    by (simp add: unknown_example_def find_participant_def)
  from unknown_first_preference_fails[OF h1 h2 h3] h1 h2 h3 show ?thesis
    by (auto simp: unknown_example_def)
qed

text \<open>
  C6. In an elimination round (the leader of the ranking is below the quota), if the
  winners and the candidates left after the last of the ranking is removed are together
  as many as the seats, then the round appends all those candidates to the winners in
  the order of the ranking, leaves no active candidate, and the election is complete.
  Their vote counts are not compared with the quota.
\<close>

theorem automatic_fill:
  assumes "ranking c \<noteq> []"
      and "count_votes (heap c) (hd (ranking c)) < quota c"
      and "int (length (winners c)) + int (length (butlast (ranking c))) = seats c"
  shows "winners (snd (election_phase c)) = winners c @ butlast (ranking c) \<and>
         participants (snd (election_phase c)) = [] \<and>
         complete_election (snd (election_phase c))"
proof -
  obtain r c' where e: "election_phase c = (r, c')" by (cases "election_phase c")
  from e show ?thesis
  proof (cases rule: election_phase_cases)
    case empty
    with assms(1) show ?thesis by (simp add: ranking_def)
  next
    case (zero first rest)
    with assms(2) show ?thesis by simp
  next
    case (win first rest)
    with assms(2) show ?thesis by simp
  next
    case elim
    with assms(3) show ?thesis by simp
  next
    case fill
    from migrate_keeps(1,2,6)[OF fill(4)] e assms(3) show ?thesis
      by (simp add: complete_election_def)
  qed
qed

theorem automatic_fill_witness:
  "ranking fill_example \<noteq> [] \<and>
   count_votes (heap fill_example) (hd (ranking fill_example)) < quota fill_example \<and>
   int (length (winners fill_example)) + int (length (butlast (ranking fill_example))) =
     seats fill_example \<and>
   winners (snd (election_phase fill_example)) = [\<lparr>name = ''A'', votes = [0]\<rparr>] \<and>
   participants (snd (election_phase fill_example)) = [] \<and>
   complete_election (snd (election_phase fill_example))"
proof -
  have r: "ranking fill_example = [\<lparr>name = ''A'', votes = [0]\<rparr>, \<lparr>name = ''B'', votes = []\<rparr>]"
    by (simp add: ranking_def fill_example_def count_votes_def Vote_def)
  have h1: "ranking fill_example \<noteq> []" by (simp add: r)
  have h2: "count_votes (heap fill_example) (hd (ranking fill_example)) < quota fill_example"
    by (simp add: r) (simp add: fill_example_def count_votes_def Vote_def)
  have h3: "int (length (winners fill_example)) + int (length (butlast (ranking fill_example))) =
     seats fill_example"
    by (simp add: r) (simp add: fill_example_def)
  from automatic_fill[OF h1 h2 h3] h1 h2 h3 show ?thesis
    by (simp add: r) (simp add: fill_example_def)
qed

text \<open>
  C1. The constructor computes the quota once, from the ballots left after the white ones
  are removed, but as \<open>ceil(1.0 + V / (seats + 1.0))\<close>: whenever \<open>seats + 1\<close>
  does not divide \<open>V\<close> this is one more than \<open>floor(V / (seats + 1)) + 1\<close>.
  With five valid ballots and two seats the quota of the context is 3, where the formula of
  the claim gives 2.
\<close>

theorem quota_rounds_up:
  "\<not> isl (Context_init [''A'', ''B'', ''C''] 2
            [[''A'', ''B''], [''A'', ''C''], [''A''], [''B'', ''C''], [''C'']]) \<and>
   quota (projr (Context_init [''A'', ''B'', ''C''] 2
            [[''A'', ''B''], [''A'', ''C''], [''A''], [''B'', ''C''], [''C'']])) = 3 \<and>
   length (ballots (projr (Context_init [''A'', ''B'', ''C''] 2
            [[''A'', ''B''], [''A'', ''C''], [''A''], [''B'', ''C''], [''C'']]))) = 5 \<and>
   droop_quota 5 2 = 2"
  by (simp add: Context_init_def destroy_white_votes_def is_white_def Vote_def Let_def droop_quota_def)

text \<open>
  C3, as stated, fails: one candidate, two seats and one ballot are accepted by the
  constructor, the first round runs to its end and eliminates the candidate, and the
  IndexError comes from the second round, with the candidate in \<open>eliminated\<close>.
\<close>

theorem seats_above_candidates_round_runs:
  "\<not> isl (main [''A''] 2 [[''A'']]) \<and>
   fst (projr (main [''A''] 2 [[''A'']])) = Some IndexError \<and>
   phase (snd (projr (main [''A''] 2 [[''A'']]))) = 2 \<and>
   eliminated (snd (projr (main [''A''] 2 [[''A'']]))) = [\<lparr>name = ''A'', votes = []\<rparr>]"
  by code_simp

text \<open>
  C3, amended. With more seats than candidates the configuration is not checked: the
  constructor returns a context, and \<open>election_loop\<close> ends with an error that
  reaches the caller, raised in the initial assignment (AttributeError, no round begun) or
  inside a round, after the tally state was changed.
\<close>

theorem seats_above_candidates_fail_in_tally:
  assumes "int (length pnames) < s"
  shows "\<exists>c e c'. Context_init pnames s lines = Inr c \<and> election_loop c = (Some e, c') \<and>
           (e = AttributeError \<and> phase c' = 0 \<or> 1 \<le> phase c')"
proof -
  from assms have s: "real_of_int s + 1 \<noteq> 0" by (smt (verit) of_int_0_le_iff of_nat_0_le_iff)
  then obtain c where c: "Context_init pnames s lines = Inr c"
    by (simp add: Context_init_def Let_def)
  with s have f: "participants c = map Participant pnames" "winners c = []" "phase c = 0"
    "seats c = s"
    by (auto simp: Context_init_def Let_def destroy_white_votes_def)
  obtain r c1 where a: "assign_for (ballots c) c = (r, c1)" by (cases "assign_for (ballots c) c")
  from assign_for_frame[OF a] f have f1: "length (participants c1) = length pnames"
    "winners c1 = []" "phase c1 = 0" "seats c1 = s"
    unfolding frame_def by (auto dest: map_eq_imp_length_eq)
  show ?thesis
  proof (cases r)
    case (Some e)
    with assign_for_error[of "ballots c" c] a have "e = AttributeError" by simp
    with Some a c f1 show ?thesis by (simp add: election_loop_def)
  next
    case None
    obtain r2 c2 where w: "election_while c1 = (r2, c2)" by (cases "election_while c1")
    from f1 assms have nc: "\<not> complete_election c1" by (simp add: complete_election_def)
    from election_while_too_many_seats[of c1] f1 assms w obtain e where "r2 = Some e" by auto
    moreover from election_while_started[OF nc w] f1 have "1 \<le> phase c2" by simp
    ultimately show ?thesis using None a c w by (simp add: election_loop_def)
  qed
qed

theorem seats_above_candidates_fail_in_tally_witness:
  "int (length [''A'']) < 2 \<and>
   (\<exists>c e c'. Context_init [''A''] 2 [[''A'']] = Inr c \<and> election_loop c = (Some e, c') \<and>
           (e = AttributeError \<and> phase c' = 0 \<or> 1 \<le> phase c'))"
  using seats_above_candidates_fail_in_tally [of "[''A'']" 2 "[[''A'']]"] by simp

text \<open>
  C4. At every round boundary reached from a state with distinct candidate names, no
  winner, nobody eliminated and a seat count that is not negative: no name is in two of
  the lists of active, winning and eliminated candidates, the three lists together hold
  exactly the names of the candidates at the start, and the winners are at most as many
  as the seats.
\<close>

theorem partition_invariant:
  assumes "round_boundary c0 c"
      and "distinct (map name (participants c0))"
      and "winners c0 = []" and "eliminated c0 = []"
      and "0 \<le> seats c0"
  shows "name ` set (participants c) \<inter> name ` set (winners c) = {} \<and>
         name ` set (participants c) \<inter> name ` set (eliminated c) = {} \<and>
         name ` set (winners c) \<inter> name ` set (eliminated c) = {} \<and>
         name ` set (participants c) \<union> name ` set (winners c) \<union> name ` set (eliminated c) =
           name ` set (participants c0) \<and>
         int (length (winners c)) \<le> seats c"
proof -
  from assms(3,5) have "int (length (winners c0)) \<le> seats c0" by simp
  from round_boundary_invariant[OF assms(1) this]
  have m: "mset (all_names c) = mset (all_names c0)" and w: "int (length (winners c)) \<le> seats c"
    by simp_all
  from assms(2,3,4) have "distinct (all_names c0)" by (simp add: all_names_def)
  with m have d: "distinct (all_names c)" by (metis mset_eq_imp_distinct_iff)
  from m have "set (all_names c) = set (all_names c0)" by (metis mset_eq_setD)
  with assms(3,4) have u: "name ` set (participants c) \<union> name ` set (winners c) \<union> name ` set (eliminated c) =
           name ` set (participants c0)"
    by (simp add: all_names_def Un_assoc)
  from d have "name ` set (participants c) \<inter> name ` set (winners c) = {}"
    "name ` set (participants c) \<inter> name ` set (eliminated c) = {}"
    "name ` set (winners c) \<inter> name ` set (eliminated c) = {}"
    by (auto simp: all_names_def)
  with u w show ?thesis by simp
qed

theorem partition_invariant_witness:
  "round_boundary fill_example (snd (election_phase fill_example)) \<and>
   distinct (map name (participants fill_example)) \<and>
   winners fill_example = [] \<and> eliminated fill_example = [] \<and> 0 \<le> seats fill_example \<and>
   name ` set (winners (snd (election_phase fill_example))) = {''A''} \<and>
   name ` set (eliminated (snd (election_phase fill_example))) = {''B''} \<and>
   name ` set (participants (snd (election_phase fill_example))) \<inter>
     name ` set (winners (snd (election_phase fill_example))) = {} \<and>
   name ` set (winners (snd (election_phase fill_example))) \<inter>
     name ` set (eliminated (snd (election_phase fill_example))) = {} \<and>
   int (length (winners (snd (election_phase fill_example)))) \<le> seats (snd (election_phase fill_example))"
proof -
  have nc: "\<not> complete_election fill_example" by (simp add: fill_example_def complete_election_def)
  have "fst (election_phase fill_example) = None" by code_simp
  then have e: "election_phase fill_example = (None, snd (election_phase fill_example))"
    by (metis prod.collapse)
  have rb: "round_boundary fill_example (snd (election_phase fill_example))"
    by (rule round_boundary.round[OF round_boundary.start nc e])
  have h2: "distinct (map name (participants fill_example))" by (simp add: fill_example_def)
  have h3: "winners fill_example = []" by (simp add: fill_example_def)
  have h4: "eliminated fill_example = []" by (simp add: fill_example_def)
  have h5: "0 \<le> seats fill_example" by (simp add: fill_example_def)
  have w: "map name (winners (snd (election_phase fill_example))) = [''A'']" by code_simp
  have el: "map name (eliminated (snd (election_phase fill_example))) = [''B'']" by code_simp
  from w have w': "name ` set (winners (snd (election_phase fill_example))) = {''A''}"
    by (metis list.set_map list.simps(15) empty_set)
  from el have el': "name ` set (eliminated (snd (election_phase fill_example))) = {''B''}"
    by (metis list.set_map list.simps(15) empty_set)
  from partition_invariant[OF rb h2 h3 h4 h5] rb h2 h3 h4 h5 w' el' show ?thesis by simp
qed

text \<open>
  C5, as stated, fails: with four candidates and three seats the loop needs three rounds
  (two winners by quota, then an elimination with the automatic fill), one more than
  \<open>C - S + 1 = 2\<close>.
\<close>

theorem three_rounds_for_four_candidates:
  "\<not> isl (main [''A'', ''B'', ''C'', ''D''] 3 [[''A''], [''A''], [''B''], [''B'']]) \<and>
   fst (projr (main [''A'', ''B'', ''C'', ''D''] 3 [[''A''], [''A''], [''B''], [''B'']])) = None \<and>
   phase (snd (projr (main [''A'', ''B'', ''C'', ''D''] 3 [[''A''], [''A''], [''B''], [''B'']]))) = 3 \<and>
   \<not> (3 \<le> length [''A'', ''B'', ''C'', ''D''] - 3 + (1::nat))"
  by code_simp

text \<open>
  C5, amended. The loop always terminates (\<open>election_while\<close> is a total function).
  A round that returns leaves the active list one candidate shorter, or empty after the
  automatic fill. No round starts once the winners are as many as the seats, and the loop
  returns without error only then. A run of the loop begins at most \<open>C + 1\<close> rounds
  for \<open>C\<close> active candidates, at most \<open>C\<close> when it returns without error, and at
  most \<open>C - 1\<close> when moreover the winners are fewer than the seats and the seats fewer
  than winners and active candidates together. An election built by the constructor with
  \<open>1 \<le> S < C\<close>, whose ballots are blank or name a candidate first, does return
  without error, complete, within \<open>C - 1\<close> rounds.
\<close>

theorem round_loop_bound:
  "(\<forall>c1. election_phase c = (None, c1) \<longrightarrow>
      length (participants c1) < length (participants c) \<and>
      (Suc (length (participants c1)) = length (participants c) \<or> participants c1 = [])) \<and>
   (complete_election c \<longrightarrow> election_while c = (None, c)) \<and>
   (\<forall>r c'. election_while c = (r, c') \<longrightarrow>
      phase c' \<le> phase c + length (participants c) + 1 \<and>
      (r = None \<longrightarrow> complete_election c' \<and> phase c' \<le> phase c + length (participants c)) \<and>
      (r = None \<and> int (length (winners c)) < seats c \<and>
       seats c < int (length (winners c)) + int (length (participants c)) \<longrightarrow>
         phase c' < phase c + length (participants c))) \<and>
   (Context_init pnames s lines = Inr c0 \<and> 1 \<le> s \<and> s < int (length pnames) \<and>
    list_all (\<lambda>l. l = [] \<or> hd l \<in> set pnames) lines \<longrightarrow>
      (\<exists>c'. election_loop c0 = (None, c') \<and> complete_election c' \<and>
            phase c' < length pnames))"
proof (intro conjI allI impI)
  fix c1 assume e: "election_phase c = (None, c1)"
  from election_phase_shrinks[OF e] show "length (participants c1) < length (participants c)" .
  from election_phase_lengths[OF e]
  show "Suc (length (participants c1)) = length (participants c) \<or> participants c1 = []" by auto
next
  assume "complete_election c" then show "election_while c = (None, c)" by simp
next
  fix r c' assume w: "election_while c = (r, c')"
  from election_while_rounds[OF w] show "phase c' \<le> phase c + length (participants c) + 1" by simp
  { assume "r = None"
    with w election_while_returns_complete[of c c'] show "complete_election c'" by simp }
  { assume "r = None"
    with election_while_rounds[OF w] show "phase c' \<le> phase c + length (participants c)" by simp }
  { assume "r = None \<and> int (length (winners c)) < seats c \<and>
       seats c < int (length (winners c)) + int (length (participants c))"
    with w election_while_rounds_sharp[of c c']
    show "phase c' < phase c + length (participants c)" by simp }
next
  assume "Context_init pnames s lines = Inr c0 \<and> 1 \<le> s \<and> s < int (length pnames) \<and>
    list_all (\<lambda>l. l = [] \<or> hd l \<in> set pnames) lines"
  then show "\<exists>c'. election_loop c0 = (None, c') \<and> complete_election c' \<and>
            phase c' < length pnames"
    using election_completes[of pnames s lines c0] by (simp add: list_all_iff)
qed

theorem round_loop_bound_witness:
  "int (length (winners four_example)) < seats four_example \<and>
   seats four_example < int (length (winners four_example)) + int (length (participants four_example)) \<and>
   fst (election_while four_example) = None \<and>
   complete_election (snd (election_while four_example)) \<and>
   phase (snd (election_while four_example)) = 3 \<and>
   phase (snd (election_while four_example)) < phase four_example + length (participants four_example) \<and>
   Context_init [''A'', ''B'', ''C'', ''D''] 3 [[''A''], [''A''], [''B''], [''B'']] =
     Inr (projr (Context_init [''A'', ''B'', ''C'', ''D''] 3 [[''A''], [''A''], [''B''], [''B'']])) \<and>
   (1::int) \<le> 3 \<and> 3 < int (length [''A'', ''B'', ''C'', ''D'']) \<and>
   list_all (\<lambda>l. l = [] \<or> hd l \<in> set [''A'', ''B'', ''C'', ''D''])
     [[''A''], [''A''], [''B''], [''B'']] \<and>
   fst (election_loop
     (projr (Context_init [''A'', ''B'', ''C'', ''D''] 3 [[''A''], [''A''], [''B''], [''B'']]))) = None \<and>
   phase (snd (election_loop
     (projr (Context_init [''A'', ''B'', ''C'', ''D''] 3 [[''A''], [''A''], [''B''], [''B'']]))))
     < length [''A'', ''B'', ''C'', ''D'']"
proof -
  let ?pn = "[''A'', ''B'', ''C'', ''D'']"
  let ?ls = "[[''A''], [''A''], [''B''], [''B'']]"
  let ?c0 = "projr (Context_init ?pn 3 ?ls)"
  have n: "fst (election_while four_example) = None" by code_simp
  then have e: "election_while four_example = (None, snd (election_while four_example))"
    by (metis prod.collapse)
  have p: "phase (snd (election_while four_example)) = 3" by code_simp
  have h1: "int (length (winners four_example)) < seats four_example"
    by (simp add: four_example_def)
  have h2: "seats four_example < int (length (winners four_example)) + int (length (participants four_example))"
    by (simp add: four_example_def)
  have g1: "Context_init ?pn 3 ?ls = Inr ?c0" by (simp add: Context_init_def Let_def)
  have g2: "(1::int) \<le> 3" by simp
  have g3: "3 < int (length ?pn)" by simp
  have g4: "list_all (\<lambda>l. l = [] \<or> hd l \<in> set ?pn) ?ls" by simp
  note t = round_loop_bound[where c = four_example and pnames = ?pn and s = 3 and lines = ?ls
      and ?c0.0 = ?c0]
  from t g1 g2 g3 g4 obtain c' where
    l: "election_loop ?c0 = (None, c')" and b: "phase c' < length ?pn" by blast
  from l have l1: "fst (election_loop ?c0) = None" by simp
  from l b have l2: "phase (snd (election_loop ?c0)) < length ?pn" by simp
  from t e n have r: "complete_election (snd (election_while four_example))"
    "phase (snd (election_while four_example)) < phase four_example + length (participants four_example)"
    using h1 h2 by blast+
  from h1 h2 n r p g1 g2 g3 g4 l1 l2 show ?thesis by blast
qed

text \<open>
  C8. A ballot is created with weight 1. \<open>Vote.update\<close> multiplies the weight by
  its coefficient and nothing else changes a weight. The coefficient of a winner round,
  \<open>(v - q) / v\<close> with \<open>v \<ge> q > 0\<close>, lies between 0 and 1; an elimination round and
  the skipping of preferences leave every weight as it is. So, from a state with a positive
  quota and no negative weight, the weight of every ballot after a round, and after the
  whole run of \<open>election_loop\<close>, is at most its weight before, and not negative.
\<close>

theorem weights_never_increase:
  "(Context_init pnames s lines = Inr c0 \<longrightarrow> (\<forall>i. weight (heap c0 i) = 1)) \<and>
   weight (snd (vote_update k v)) = weight v * k \<and>
   (0 < quota c \<and> quota c \<le> n \<longrightarrow> 0 \<le> (n - quota c) / n \<and> (n - quota c) / n \<le> 1) \<and>
   (election_phase c = (r, c') \<and> 0 < quota c \<and> (\<forall>i. 0 \<le> weight (heap c i)) \<longrightarrow>
      (\<forall>i. 0 \<le> weight (heap c' i) \<and> weight (heap c' i) \<le> weight (heap c i))) \<and>
   (election_phase c = (r, c') \<and> ranking c \<noteq> [] \<and>
    count_votes (heap c) (hd (ranking c)) < quota c \<longrightarrow>
      (\<forall>i. weight (heap c' i) = weight (heap c i))) \<and>
   (migrate_while j c = (r, c') \<longrightarrow> (\<forall>i. weight (heap c' i) = weight (heap c i))) \<and>
   (election_loop c = (r, c') \<and> 0 < quota c \<and> (\<forall>i. 0 \<le> weight (heap c i)) \<longrightarrow>
      (\<forall>i. 0 \<le> weight (heap c' i) \<and> weight (heap c' i) \<le> weight (heap c i)))"
proof (intro conjI impI allI)
  fix i assume "Context_init pnames s lines = Inr c0"
  then show "weight (heap c0 i) = 1" by (rule Context_init_weights)
next
  show "weight (snd (vote_update k v)) = weight v * k"
    by (simp add: vote_update_def Let_def split: list.splits)
next
  assume "0 < quota c \<and> quota c \<le> n"
  then show "0 \<le> (n - quota c) / n" "(n - quota c) / n \<le> 1"
    using surplus_coefficient[of "quota c" n] by simp_all
next
  fix i assume "election_phase c = (r, c') \<and> 0 < quota c \<and> (\<forall>i. 0 \<le> weight (heap c i))"
  then have "lighter c c'" using election_phase_lighter[of c r c'] by simp
  then show "0 \<le> weight (heap c' i)" "weight (heap c' i) \<le> weight (heap c i)"
    by (simp_all add: lighter_def)
next
  fix i assume "election_phase c = (r, c') \<and> ranking c \<noteq> [] \<and>
    count_votes (heap c) (hd (ranking c)) < quota c"
  then have "same_weights c c'" using election_phase_elimination_same[of c r c'] by simp
  then show "weight (heap c' i) = weight (heap c i)" by (simp add: same_weights_def)
next
  fix i assume "migrate_while j c = (r, c')"
  from migrate_while_same[OF this] show "weight (heap c' i) = weight (heap c i)"
    by (simp add: same_weights_def)
next
  fix i assume "election_loop c = (r, c') \<and> 0 < quota c \<and> (\<forall>i. 0 \<le> weight (heap c i))"
  then have "lighter c c'" using election_loop_lighter[of c r c'] by simp
  then show "0 \<le> weight (heap c' i)" "weight (heap c' i) \<le> weight (heap c i)"
    by (simp_all add: lighter_def)
qed

theorem weights_never_increase_witness:
  "0 < quota surplus_example \<and> (\<forall>i. 0 \<le> weight (heap surplus_example i)) \<and>
   weight (heap surplus_example 0) = 1 \<and>
   weight (heap (snd (election_phase surplus_example)) 0) = 2/5 \<and>
   (\<forall>i. 0 \<le> weight (heap (snd (election_phase surplus_example)) i) \<and>
        weight (heap (snd (election_phase surplus_example)) i) \<le> weight (heap surplus_example i))"
proof -
  have e: "election_phase surplus_example =
             (fst (election_phase surplus_example), snd (election_phase surplus_example))"
    by simp
  have h1: "0 < quota surplus_example" by (simp add: surplus_example_def)
  have h2: "\<forall>i. 0 \<le> weight (heap surplus_example i)" by (simp add: surplus_example_def Vote_def)
  have w0: "weight (heap surplus_example 0) = 1" by (simp add: surplus_example_def Vote_def)
  have w1: "weight (heap (snd (election_phase surplus_example)) 0) = 2/5" by code_simp
  from weights_never_increase[where c = surplus_example
      and r = "fst (election_phase surplus_example)" and c' = "snd (election_phase surplus_example)"]
    e h1 h2
  have "\<forall>i. 0 \<le> weight (heap (snd (election_phase surplus_example)) i) \<and>
        weight (heap (snd (election_phase surplus_example)) i) \<le> weight (heap surplus_example i)"
    by blast
  with h1 h2 w0 w1 show ?thesis by blast
qed

text \<open>
  C2. Let the ballots of the source of a migration be distinct, not white, and held by no
  active candidate. Then \<open>migrate\<close> returns without error and, for every ballot of the
  source: its weight is the old weight times \<open>wcoef\<close> (multiplied once; the later
  updates use 1.0); its preferences are the old ones without the first, and without the
  following ones up to the first that names an active candidate; if such a preference
  is left the ballot is in the list of votes of exactly that candidate, otherwise it has no
  preference left and is in the list of no active candidate. Afterwards the source holds
  no ballot.
\<close>

theorem migration_of_every_ballot:
  assumes "distinct (votes (source_of pl c))"
      and "\<forall>i\<in>set (votes (source_of pl c)). \<not> is_white (heap c i)"
      and "\<forall>i\<in>set (votes (source_of pl c)). holders c i = []"
  shows "\<exists>c'. migrate pl k c = (None, c') \<and> votes (source_of pl c') = [] \<and>
           (\<forall>i\<in>set (votes (source_of pl c)).
              weight (heap c' i) = weight (heap c i) * k \<and>
              prefs (heap c' i) = settled c (tl (prefs (heap c i))) \<and>
              (case prefs (heap c' i) of
                 [] \<Rightarrow> holders c' i = []
               | n # ns \<Rightarrow> \<exists>j. find_participant c' (Some n) = Some j \<and> holders c' i = [j]))"
proof -
  let ?is = "votes (source_of pl c)"
  from assms(2) have nw: "\<forall>i\<in>set ?is. prefs (heap c i) \<noteq> []" by (simp add: is_white_iff)
  from migrate_for_spec[OF assms(1) nw, of k] obtain c1 where
    m: "migrate_for k ?is c = (None, c1)" and f: "frame c c1" and
    h: "\<forall>x. heap c1 x = (if x \<in> set ?is then moved k c x else heap c x)" and
    ho: "\<forall>j x. holds c1 j x \<longleftrightarrow> holds c j x \<or> (x \<in> set ?is \<and> target k c x j)"
    by blast
  let ?c' = "clear_source pl c1"
  have r: "migrate pl k c = (None, ?c')" using m by (simp add: migrate_def)
  have hc: "heap ?c' = heap c1" and pc: "participants ?c' = participants c1"
    by (rule clear_source_keeps)+
  have fp: "\<And>n. find_participant ?c' n = find_participant c n"
    using frame_find[OF f] pc by (simp add: find_participant_def)
  have hl: "\<And>j x. holds ?c' j x = holds c1 j x" using pc by (simp add: holds_def)
  have "\<forall>i\<in>set ?is.
              weight (heap ?c' i) = weight (heap c i) * k \<and>
              prefs (heap ?c' i) = settled c (tl (prefs (heap c i))) \<and>
              (case prefs (heap ?c' i) of
                 [] \<Rightarrow> holders ?c' i = []
               | n # ns \<Rightarrow> \<exists>j. find_participant ?c' (Some n) = Some j \<and> holders ?c' i = [j])"
  proof
    fix i assume i: "i \<in> set ?is"
    with h hc have hi: "heap ?c' i = moved k c i" by simp
    from i assms(3) have free: "\<forall>j. \<not> holds c j i" by (simp add: holders_Nil)
    with ho hl i have t: "\<And>j. holds ?c' j i \<longleftrightarrow> target k c i j" by simp
    have "case prefs (heap ?c' i) of
                 [] \<Rightarrow> holders ?c' i = []
               | n # ns \<Rightarrow> \<exists>j. find_participant ?c' (Some n) = Some j \<and> holders ?c' i = [j]"
    proof (cases "prefs (moved k c i)")
      case Nil
      with t have "\<forall>j. \<not> holds ?c' j i" by (simp add: target_def)
      with Nil hi show ?thesis by (simp add: holders_Nil)
    next
      case (Cons n ns)
      then have "settled c (tl (prefs (heap c i))) = n # ns" by (simp add: moved_def)
      from settled_head[OF this] obtain j where j: "find_participant c (Some n) = Some j" by blast
      with t Cons have "\<forall>j'. holds ?c' j' i \<longleftrightarrow> j' = j" by (auto simp: target_def)
      from holders_single[OF this] j Cons hi fp show ?thesis by simp
    qed
    with hi show "weight (heap ?c' i) = weight (heap c i) * k \<and>
              prefs (heap ?c' i) = settled c (tl (prefs (heap c i))) \<and>
              (case prefs (heap ?c' i) of
                 [] \<Rightarrow> holders ?c' i = []
               | n # ns \<Rightarrow> \<exists>j. find_participant ?c' (Some n) = Some j \<and> holders ?c' i = [j])"
      by (simp add: moved_def)
  qed
  with r source_cleared[of pl c1] show ?thesis by blast
qed

theorem migration_of_every_ballot_witness:
  "distinct (votes (source_of In_winners migrate_example)) \<and>
   list_all (\<lambda>i. \<not> is_white (heap migrate_example i))
     (votes (source_of In_winners migrate_example)) \<and>
   list_all (\<lambda>i. holders migrate_example i = [])
     (votes (source_of In_winners migrate_example)) \<and>
   fst (migrate In_winners (2/5) migrate_example) = None \<and>
   votes (source_of In_winners (snd (migrate In_winners (2/5) migrate_example))) = [] \<and>
   heap (snd (migrate In_winners (2/5) migrate_example)) 1 = \<lparr>prefs = [''C''], weight = 2/5\<rparr> \<and>
   holders (snd (migrate In_winners (2/5) migrate_example)) 1 = [1] \<and>
   heap (snd (migrate In_winners (2/5) migrate_example)) 2 = \<lparr>prefs = [], weight = 2/5\<rparr> \<and>
   holders (snd (migrate In_winners (2/5) migrate_example)) 2 = []"
proof -
  have s: "votes (source_of In_winners migrate_example) = [0, 1, 2, 3, 4]"
    by (simp add: source_of_def migrate_example_def)
  have h1: "distinct (votes (source_of In_winners migrate_example))" by (simp add: s)
  have h2: "\<forall>i\<in>set (votes (source_of In_winners migrate_example)). \<not> is_white (heap migrate_example i)"
    by (simp add: s) (simp add: migrate_example_def is_white_def Vote_def)
  have h3: "\<forall>i\<in>set (votes (source_of In_winners migrate_example)). holders migrate_example i = []"
    by (simp add: s) (simp add: migrate_example_def holders_def)
  from migration_of_every_ballot[OF h1 h2 h3, of "2/5"] obtain c' where
    m: "migrate In_winners (2/5) migrate_example = (None, c')" and
    v: "votes (source_of In_winners c') = []" and
    a: "\<forall>i\<in>set (votes (source_of In_winners migrate_example)).
          weight (heap c' i) = weight (heap migrate_example i) * (2/5) \<and>
          prefs (heap c' i) = settled migrate_example (tl (prefs (heap migrate_example i))) \<and>
          (case prefs (heap c' i) of
             [] \<Rightarrow> holders c' i = []
           | n # ns \<Rightarrow> \<exists>j. find_participant c' (Some n) = Some j \<and> holders c' i = [j])"
    by blast
  have p1: "settled migrate_example (tl (prefs (heap migrate_example 1))) = [''C'']"
    by (simp add: migrate_example_def settled_def find_participant_def Vote_def)
  have p2: "settled migrate_example (tl (prefs (heap migrate_example 2))) = []"
    by (simp add: migrate_example_def settled_def find_participant_def Vote_def)
  have w: "weight (heap migrate_example 1) = 1" "weight (heap migrate_example 2) = 1"
    by (simp_all add: migrate_example_def Vote_def)
  from a s have a1: "weight (heap c' 1) = 2/5" "prefs (heap c' 1) = [''C'']"
    "\<exists>j. find_participant c' (Some ''C'') = Some j \<and> holders c' 1 = [j]"
    using p1 w by auto
  from a s have a2: "weight (heap c' 2) = 2/5" "prefs (heap c' 2) = []" "holders c' 2 = []"
    using p2 w by auto
  have f: "find_participant c' (Some ''C'') = Some 1"
  proof -
    have "find_participant (snd (migrate In_winners (2/5) migrate_example)) (Some ''C'') = Some 1"
      by code_simp
    with m show ?thesis by simp
  qed
  with a1(3) have ho1: "holders c' 1 = [1]" by auto
  have e1: "heap c' 1 = \<lparr>prefs = [''C''], weight = 2/5\<rparr>" using a1(1,2) by (cases "heap c' 1") simp
  have e2: "heap c' 2 = \<lparr>prefs = [], weight = 2/5\<rparr>" using a2(1,2) by (cases "heap c' 2") simp
  from h2 have l2: "list_all (\<lambda>i. \<not> is_white (heap migrate_example i))
     (votes (source_of In_winners migrate_example))" by (simp only: list_all_iff)
  from h3 have l3: "list_all (\<lambda>i. holders migrate_example i = [])
     (votes (source_of In_winners migrate_example))" by (simp only: list_all_iff)
  from h1 l2 l3 m v e1 e2 ho1 a2(3) show ?thesis by simp
qed




end
